theory Spec2Isabelle
  imports Complex_Main "HOL-Library.Char_ord" "HOL-Library.List_Lexorder"
    "HOL-Library.Product_Lexorder"
begin

section \<open>Conventions of the embedding\<close>

text \<open>
  The repository is Python on top of numpy, astropy and shapely. The embedding follows
  \<^verbatim>\<open>gmadet/stacking.py\<close> (\<^verbatim>\<open>table_obs\<close>, \<^verbatim>\<open>makelists\<close>) and
  \<^verbatim>\<open>gmadet/ps1_survey.py\<close> (\<^verbatim>\<open>get_crpix\<close>, \<^verbatim>\<open>get_RADEC_coord\<close>,
  \<^verbatim>\<open>ps1_cell_coord\<close>, \<^verbatim>\<open>ps1_grid\<close>).

  \<^item> Python floats are idealised as \<open>real\<close>: only comparisons, sums, products and
    rounding of them are used, and no claim is about rounding error or NaN.
  \<^item> An astropy table is the list of its rows, in row order; a boolean row mask is a
    predicate on rows and \<^verbatim>\<open>table[mask]\<close> is \<open>filter\<close>.
  \<^item> A Python exception is a value \<open>Inl e\<close> of a sum type.
  \<^item> What the external libraries compute is a parameter of the model: the great-circle
    separation of two sky coordinates (\<^verbatim>\<open>SkyCoord.separation\<close>), the tangent-plane
    pixel-to-world transformation (\<^verbatim>\<open>WCS.wcs_pix2world\<close>), the polygon predicate
    (\<^verbatim>\<open>Polygon.intersects\<close>) and the text of a rounded float
    (\<^verbatim>\<open>str(np.round(x, 3))\<close>). The grid catalog \<^verbatim>\<open>ps1grid.fits\<close> is a data file
    that is not part of the sources; it is a parameter as well.
\<close>

datatype error = IndexError | TypeError | ValueError | UnboundLocalError

section \<open>stacking.py: the observation table\<close>

text \<open>
  What \<^verbatim>\<open>table_obs\<close> reads of one FITS header. \<open>hdr_DATE_OBS\<close> is the Julian date
  that \<^verbatim>\<open>time.Time(hdr["DATE-OBS"], format="fits").jd\<close> yields, \<open>None\<close> when the
  keyword is missing or does not parse (the \<^verbatim>\<open>except BaseException\<close> branch);
  \<open>hdr_JD\<close> is \<^verbatim>\<open>float(hdr["JD"])\<close>, \<open>None\<close> when that raises.
\<close>

record header =
  hdr_DATE_OBS :: "real option"
  hdr_JD :: "real option"
  hdr_CRVAL1 :: real
  hdr_CRVAL2 :: real
  hdr_TELESCOP :: string
  hdr_INSTRUME :: string
  hdr_FILTER :: string

text \<open>One row of \<^verbatim>\<open>obs_table\<close>, with the column names of the source.\<close>

record obs_row =
  idx :: nat
  filename :: string
  Telescope :: string
  Instrument :: string
  Filter :: string
  RA :: real
  Dec :: real
  JD :: real
  fieldID :: int
  epochID :: int
  RA_ref :: "real option"
  Dec_ref :: "real option"
  stack_filename :: "string option"

type_synonym table = "obs_row list"

type_synonym coord = "real \<times> real"

type_synonym partition_key = "string \<times> string \<times> string"

subsection \<open>Reading the headers (lines 80--104)\<close>

text \<open>
  The variable \<^verbatim>\<open>hr\<close> lives across the iterations of the loop over the files: it is
  \<open>None\<close> while unbound. When neither keyword gives a date the source prints a message
  and goes on, so \<^verbatim>\<open>Time.append(hr)\<close> reads whatever \<^verbatim>\<open>hr\<close> holds.
\<close>

definition obs_time :: "header \<Rightarrow> real option \<Rightarrow> real option" where
  "obs_time hdr hr =
     (case hdr_DATE_OBS hdr of
        Some d \<Rightarrow> Some (d * 24)
      | None \<Rightarrow> (case hdr_JD hdr of Some j \<Rightarrow> Some (j * 24) | None \<Rightarrow> hr))"

fun read_images :: "(string \<times> header) list \<Rightarrow> real option \<Rightarrow> nat \<Rightarrow> error + table" where
  "read_images [] hr n = Inr []"
| "read_images ((ima, hdr) # rest) hr n =
     (case obs_time hdr hr of
        None \<Rightarrow> Inl UnboundLocalError
      | Some h \<Rightarrow>
          (case read_images rest (Some h) (Suc n) of
             Inl e \<Rightarrow> Inl e
           | Inr rows \<Rightarrow>
               Inr (\<lparr>idx = n, filename = ima, Telescope = hdr_TELESCOP hdr,
                     Instrument = hdr_INSTRUME hdr, Filter = hdr_FILTER hdr,
                     RA = hdr_CRVAL1 hdr, Dec = hdr_CRVAL2 hdr, JD = h,
                     fieldID = 0, epochID = 0, RA_ref = None, Dec_ref = None,
                     stack_filename = None\<rparr> # rows)))"

subsection \<open>Grouping by field (lines 154--216)\<close>

definition part_key :: "obs_row \<Rightarrow> partition_key" where
  "part_key r = (Telescope r, Instrument r, Filter r)"

text \<open>\<^verbatim>\<open>obs_table.group_by([...]).groups.keys\<close>: the distinct keys, sorted.\<close>

definition partition_keys :: "table \<Rightarrow> partition_key list" where
  "partition_keys t = sort (remdups (map part_key t))"

definition field_keys :: "obs_row list \<Rightarrow> int list" where
  "field_keys rows = sort (remdups (map fieldID rows))"

text \<open>
  \<^verbatim>\<open>obs_table["fieldID"][mask_idx] = f\<close> and the two assignments after it, with
  \<^verbatim>\<open>mask_idx = obs_table["idx"] == i\<close>.
\<close>

definition set_field :: "nat \<Rightarrow> int \<Rightarrow> real option \<Rightarrow> real option \<Rightarrow> table \<Rightarrow> table" where
  "set_field i f ra dec t =
     map (\<lambda>r. if idx r = i then r\<lparr>fieldID := f, RA_ref := ra, Dec_ref := dec\<rparr> else r) t"

text \<open>
  The loop over the keys of the fields that exist (lines 190--204). Its variables are
  \<^verbatim>\<open>sep_min\<close>, \<^verbatim>\<open>field_ref\<close>, \<^verbatim>\<open>ra_ref\<close> and \<^verbatim>\<open>dec_ref\<close>; the last two are
  overwritten in every iteration, whether or not the field is selected. The rows of
  \<^verbatim>\<open>obs_table[mask3]\<close> are never empty, since the key was read from these rows (lemma
  \<open>field_key_has_row\<close>); the first case of the model is that unreachable IndexError.
\<close>

fun closest_field ::
  "(coord \<Rightarrow> coord \<Rightarrow> real) \<Rightarrow> real \<Rightarrow> table \<Rightarrow> (obs_row \<Rightarrow> bool) \<Rightarrow> coord \<Rightarrow> int list \<Rightarrow>
     real \<times> int \<times> real option \<times> real option \<Rightarrow> real \<times> int \<times> real option \<times> real option" where
  "closest_field sep radius t mask2 ccrval [] st = st"
| "closest_field sep radius t mask2 ccrval (key # keys) (sep_min, field_ref, ra_ref, dec_ref) =
     (case filter (\<lambda>r. fieldID r = key \<and> mask2 r) t of
        [] \<Rightarrow> closest_field sep radius t mask2 ccrval keys (sep_min, field_ref, ra_ref, dec_ref)
      | r0 # _ \<Rightarrow>
          (if sep ccrval (RA r0, Dec r0) < radius \<and> sep ccrval (RA r0, Dec r0) < sep_min
           then closest_field sep radius t mask2 ccrval keys
                  (sep ccrval (RA r0, Dec r0), key, Some (RA r0), Some (Dec r0))
           else closest_field sep radius t mask2 ccrval keys
                  (sep_min, field_ref, Some (RA r0), Some (Dec r0))))"

text \<open>
  The loop \<^verbatim>\<open>for data in obs_table[mask]\<close> (lines 177--216). \<^verbatim>\<open>obs_table[mask]\<close> is a
  copy made when the loop starts, so \<open>data\<close> ranges over the rows as they were then, while
  the masks inside the body read the table as it is now. The state is
  (\<^verbatim>\<open>field_id\<close>, the table).
\<close>

fun assign_rows ::
  "(coord \<Rightarrow> coord \<Rightarrow> real) \<Rightarrow> real \<Rightarrow> partition_key \<Rightarrow> obs_row list \<Rightarrow> int \<times> table \<Rightarrow> int \<times> table" where
  "assign_rows sep radius k [] st = st"
| "assign_rows sep radius k (data # rest) (field_id, t) =
     (if fieldID data = 0 then
        (case closest_field sep radius t (\<lambda>r. fieldID r \<noteq> 0 \<and> part_key r = k) (RA data, Dec data)
                (field_keys (filter (\<lambda>r. fieldID r \<noteq> 0 \<and> part_key r = k) t))
                (100, - 1, None, None) of
           (sep_min, field_ref, ra_ref, dec_ref) \<Rightarrow>
             if field_ref \<noteq> - 1
             then assign_rows sep radius k rest
                    (field_id, set_field (idx data) field_ref ra_ref dec_ref t)
             else assign_rows sep radius k rest
                    (field_id + 1,
                     set_field (idx data) (field_id + 1) (Some (RA data)) (Some (Dec data)) t))
      else assign_rows sep radius k rest (field_id, t))"

text \<open>
  One iteration of the loop over the partitions (lines 155--216): the first row of the
  partition opens field 1, then the rows are assigned in table order. The partition has a
  row, since its key was read from the table (lemma \<open>partition_key_has_row\<close>); the
  first case is that unreachable IndexError.
\<close>

definition group_partition ::
  "(coord \<Rightarrow> coord \<Rightarrow> real) \<Rightarrow> real \<Rightarrow> partition_key \<Rightarrow> table \<Rightarrow> table" where
  "group_partition sep radius k t =
     (case filter (\<lambda>r. part_key r = k) t of
        [] \<Rightarrow> t
      | r0 # _ \<Rightarrow>
          snd (assign_rows sep radius k
                 (filter (\<lambda>r. part_key r = k)
                    (set_field (idx r0) 1 (Some (RA r0)) (Some (Dec r0)) t))
                 (1, set_field (idx r0) 1 (Some (RA r0)) (Some (Dec r0)) t)))"

definition group_fields :: "(coord \<Rightarrow> coord \<Rightarrow> real) \<Rightarrow> real \<Rightarrow> table \<Rightarrow> table" where
  "group_fields sep radius t = fold (group_partition sep radius) (partition_keys t) t"

subsection \<open>Grouping by epoch (lines 218--240)\<close>

definition set_epoch :: "nat \<Rightarrow> int \<Rightarrow> table \<Rightarrow> table" where
  "set_epoch i e t = map (\<lambda>r. if idx r = i then r\<lparr>epochID := e\<rparr> else r) t"

text \<open>
  The sweep \<^verbatim>\<open>for data in obs_table[mask_field]\<close> over the rows of one field, with the
  state (\<^verbatim>\<open>JD_ref\<close>, \<^verbatim>\<open>epoch_id\<close>, the table).
\<close>

fun epoch_rows :: "real \<Rightarrow> obs_row list \<Rightarrow> real \<times> int \<times> table \<Rightarrow> real \<times> int \<times> table" where
  "epoch_rows deltaT [] st = st"
| "epoch_rows deltaT (data # rest) (JD_ref, epoch_id, t) =
     (if JD data \<le> JD_ref + deltaT
      then epoch_rows deltaT rest (JD_ref, epoch_id, set_epoch (idx data) epoch_id t)
      else epoch_rows deltaT rest (JD data, epoch_id + 1, set_epoch (idx data) (epoch_id + 1) t))"

text \<open>
  One iteration of the loop over the fields of a partition (lines 228--240). The field has
  a row, since its key was read from the table (lemma \<open>epoch_key_has_row\<close>); the first
  case is that unreachable IndexError.
\<close>

definition epoch_field :: "real \<Rightarrow> partition_key \<Rightarrow> int \<Rightarrow> table \<Rightarrow> table" where
  "epoch_field deltaT k f t =
     (case filter (\<lambda>r. fieldID r = f \<and> part_key r = k) t of
        [] \<Rightarrow> t
      | r0 # _ \<Rightarrow>
          snd (snd (epoch_rows deltaT (filter (\<lambda>r. fieldID r = f \<and> part_key r = k) t)
                      (JD r0, 1, t))))"

definition epoch_partition :: "real \<Rightarrow> partition_key \<Rightarrow> table \<Rightarrow> table" where
  "epoch_partition deltaT k t =
     fold (epoch_field deltaT k) (field_keys (filter (\<lambda>r. part_key r = k) t)) t"

definition group_epochs :: "real \<Rightarrow> table \<Rightarrow> table" where
  "group_epochs deltaT t = fold (epoch_partition deltaT) (partition_keys t) t"

subsection \<open>The whole of \<^verbatim>\<open>table_obs\<close>\<close>

text \<open>
  \<^verbatim>\<open>obs_table.sort("JD")\<close> is modelled by the stable insertion sort \<open>sort_key\<close>. numpy
  leaves the order of rows with equal \<^verbatim>\<open>JD\<close> open; the general theorems about
  \<open>table_obs\<close> below use of the sorted table only that it is sorted by \<^verbatim>\<open>JD\<close>, that
  its \<^verbatim>\<open>idx\<close> are distinct and that its field ids are still 0 (lemma
  \<open>table_obs_shape\<close>), not the order of such rows.
\<close>

definition table_obs ::
  "(coord \<Rightarrow> coord \<Rightarrow> real) \<Rightarrow> (string \<times> header) list \<Rightarrow> real \<Rightarrow> real \<Rightarrow> error + table" where
  "table_obs sep filenames radius deltaT =
     (case read_images filenames None 0 of
        Inl e \<Rightarrow> Inl e
      | Inr rows \<Rightarrow> Inr (group_epochs deltaT (group_fields sep radius (sort_key JD rows))))"

section \<open>stacking.py: the names of the file lists (\<^verbatim>\<open>makelists\<close>, lines 286--334)\<close>

text \<open>Python's \<^verbatim>\<open>str\<close> of an integer and the format \<^verbatim>\<open>%03d\<close>.\<close>

definition digit_char :: "nat \<Rightarrow> char" where
  "digit_char d = ''0123456789'' ! d"

fun str_nat :: "nat \<Rightarrow> string" where
  "str_nat n = (if n < 10 then [digit_char n] else str_nat (n div 10) @ [digit_char (n mod 10)])"

declare str_nat.simps [simp del]

definition str_int :: "int \<Rightarrow> string" where
  "str_int i = (if i < 0 then CHR ''-'' # str_nat (nat (- i)) else str_nat (nat i))"

definition zfill :: "nat \<Rightarrow> string \<Rightarrow> string" where
  "zfill w s = replicate (w - length s) CHR ''0'' @ s"

definition fmt_03d :: "int \<Rightarrow> string" where
  "fmt_03d i = (if i < 0 then CHR ''-'' # zfill 2 (str_nat (nat (- i))) else zfill 3 (str_nat (nat i)))"

text \<open>\<^verbatim>\<open>s.replace(c, "")\<close> for a one-character \<^verbatim>\<open>c\<close>.\<close>

definition remove_char :: "char \<Rightarrow> string \<Rightarrow> string" where
  "remove_char c s = filter (\<lambda>d. d \<noteq> c) s"

text \<open>
  The name of one group (lines 302--325). \<open>ra_txt\<close> and \<open>dec_txt\<close> are the texts
  \<^verbatim>\<open>str(np.round(RA_ref, 3))\<close> and \<^verbatim>\<open>str(np.round(Dec_ref, 3))\<close> of the group's first
  row. The instrument is not used.
\<close>

definition list_name :: "string \<Rightarrow> string \<Rightarrow> string \<Rightarrow> string \<Rightarrow> int \<Rightarrow> int \<Rightarrow> string" where
  "list_name tel band ra_txt dec_txt field_id epoch_id =
     remove_char CHR '' '' tel @ ''_'' @ remove_char CHR '' '' band @ ''_'' @
     remove_char CHR ''.'' ra_txt @ ''_'' @ remove_char CHR ''.'' dec_txt @
     ''_field_'' @ fmt_03d field_id @ ''_'' @ fmt_03d epoch_id"

text \<open>
  The loop over the groups of one partition. The result lists, in the order the files are
  opened for writing, the name of each \<^verbatim>\<open>.list\<close> file and the lines written to it; a
  later file of the same name replaces an earlier one. \<^verbatim>\<open>np.round(None, 3)\<close> raises for
  a row whose reference coordinate was never set.
\<close>

definition group_keys :: "obs_row list \<Rightarrow> (int \<times> int) list" where
  "group_keys rows = sort (remdups (map (\<lambda>r. (fieldID r, epochID r)) rows))"

definition group_file ::
  "(real \<Rightarrow> string) \<Rightarrow> table \<Rightarrow> partition_key \<Rightarrow> int \<times> int \<Rightarrow> error + string \<times> string list" where
  "group_file str_round3 obs k fe =
     (case filter (\<lambda>r. fieldID r = fst fe \<and> epochID r = snd fe \<and> part_key r = k) obs of
        [] \<Rightarrow> Inl IndexError
      | r0 # rows \<Rightarrow>
          (case (RA_ref r0, Dec_ref r0) of
             (Some ra, Some dec) \<Rightarrow>
               Inr (list_name (Telescope r0) (Filter r0) (str_round3 ra) (str_round3 dec)
                      (fst fe) (snd fe),
                    map filename (r0 # rows))
           | _ \<Rightarrow> Inl TypeError))"

fun sequence :: "(error + 'a) list \<Rightarrow> error + 'a list" where
  "sequence [] = Inr []"
| "sequence (Inl e # xs) = Inl e"
| "sequence (Inr x # xs) = (case sequence xs of Inl e \<Rightarrow> Inl e | Inr ys \<Rightarrow> Inr (x # ys))"

definition makelists_files ::
  "(real \<Rightarrow> string) \<Rightarrow> table \<Rightarrow> error + (string \<times> string list) list" where
  "makelists_files str_round3 obs =
     sequence (concat (map (\<lambda>k. map (group_file str_round3 obs k)
                                   (group_keys (filter (\<lambda>r. part_key r = k) obs)))
                           (partition_keys obs)))"

text \<open>\<^verbatim>\<open>makelists\<close>: the radius is given in arc minutes.\<close>

definition makelists ::
  "(coord \<Rightarrow> coord \<Rightarrow> real) \<Rightarrow> (real \<Rightarrow> string) \<Rightarrow> (string \<times> header) list \<Rightarrow> real \<Rightarrow> real \<Rightarrow>
     error + (string \<times> string list) list" where
  "makelists sep str_round3 filenames radius deltaT =
     (case table_obs sep filenames (radius / 60) deltaT of
        Inl e \<Rightarrow> Inl e
      | Inr obs \<Rightarrow> makelists_files str_round3 obs)"

section \<open>ps1\_survey.py: the sky cells that overlap an image\<close>

text \<open>One row of the grid catalog \<^verbatim>\<open>ps1grid.fits\<close>, with its column names.\<close>

record zone_row =
  ZONE :: int
  PROJCELL :: int
  NBAND :: int
  DEC :: real
  DEC_MIN :: real
  DEC_MAX :: real
  XCELL :: real
  YCELL :: real
  CRPIX1 :: real
  CRPIX2 :: real

text \<open>
  The tangent-plane coordinate system that \<^verbatim>\<open>get_RADEC_coord\<close> sets up
  (\<^verbatim>\<open>ctype = ["RA---TAN", "DEC--TAN"]\<close> always).
\<close>

record wcs =
  wcs_crpix :: "real \<times> real"
  wcs_cdelt :: "real \<times> real"
  wcs_crval :: "real \<times> real"

text \<open>One row of the table that \<^verbatim>\<open>ps1_cell_coord\<close> returns.\<close>

record skycell =
  projcell_id :: string
  cell_id :: string
  RA_min :: real
  RA_max :: real
  dec_min :: real
  dec_max :: real

text \<open>
  \<^verbatim>\<open>im_corner_coords\<close> is \<^verbatim>\<open>[ra, dec]\<close>, two arrays of the four corners of the image
  (\<^verbatim>\<open>get_corner_coords\<close> in \<^verbatim>\<open>substraction.py\<close>); here the four corners as pairs.
\<close>

type_synonym footprint = "coord \<times> coord \<times> coord \<times> coord"

definition corners :: "footprint \<Rightarrow> coord list" where
  "corners im = (case im of (a, b, c, d) \<Rightarrow> [a, b, c, d])"

definition im_ra_min :: "footprint \<Rightarrow> real" where
  "im_ra_min im = Min (set (map fst (corners im)))"

definition im_ra_max :: "footprint \<Rightarrow> real" where
  "im_ra_max im = Max (set (map fst (corners im)))"

definition im_dec_min :: "footprint \<Rightarrow> real" where
  "im_dec_min im = Min (set (map snd (corners im)))"

definition im_dec_max :: "footprint \<Rightarrow> real" where
  "im_dec_max im = Max (set (map snd (corners im)))"

subsection \<open>\<^verbatim>\<open>get_crpix\<close>, \<^verbatim>\<open>get_RADEC_coord\<close>, \<^verbatim>\<open>ps1_cell_coord\<close>\<close>

definition get_crpix :: "real \<Rightarrow> real \<Rightarrow> real \<Rightarrow> real \<Rightarrow> nat \<Rightarrow> nat \<Rightarrow> real \<times> real" where
  "get_crpix proj_crpix1 proj_crpix2 Xcell Ycell x y =
     (proj_crpix1 + (5 - real x) * (Xcell - 480), proj_crpix2 + (5 - real y) * (Ycell - 480))"

text \<open>The four corners of one cell in world coordinates (the rows of \<^verbatim>\<open>world\<close>).\<close>

definition get_RADEC_coord ::
  "(wcs \<Rightarrow> coord \<Rightarrow> coord) \<Rightarrow> real \<Rightarrow> real \<Rightarrow> real \<Rightarrow> real \<Rightarrow> nat \<Rightarrow> nat \<Rightarrow> real \<Rightarrow> real \<Rightarrow> coord list" where
  "get_RADEC_coord pix2world proj_crpix1 proj_crpix2 Xcell Ycell x y ra dec =
     map (pix2world \<lparr>wcs_crpix = get_crpix proj_crpix1 proj_crpix2 Xcell Ycell x y,
                     wcs_cdelt = (- (0.25 / 3600), 0.25 / 3600),
                     wcs_crval = (ra, dec)\<rparr>)
         [(0, 0), (Xcell, 0), (Xcell, Ycell), (0, Ycell)]"

definition projcell_str :: "int \<Rightarrow> string" where
  "projcell_str projcell = (if projcell < 1000 then CHR ''0'' # str_int projcell else str_int projcell)"

definition cell_str :: "nat \<Rightarrow> nat \<Rightarrow> string" where
  "cell_str y x = CHR ''0'' # str_nat y @ str_nat x"

definition cell_row ::
  "(wcs \<Rightarrow> coord \<Rightarrow> coord) \<Rightarrow> (coord list \<Rightarrow> coord list \<Rightarrow> bool) \<Rightarrow> footprint \<Rightarrow> int \<Rightarrow>
     real \<Rightarrow> real \<Rightarrow> real \<Rightarrow> real \<Rightarrow> real \<Rightarrow> real \<Rightarrow> nat \<Rightarrow> nat \<Rightarrow> skycell list" where
  "cell_row pix2world intersects im projcell Xcell Ycell ra_center dec_center crpix1 crpix2 y x =
     (if intersects (corners im)
           (get_RADEC_coord pix2world crpix1 crpix2 Xcell Ycell x y ra_center dec_center)
      then [\<lparr>projcell_id = projcell_str projcell, cell_id = cell_str y x,
              RA_min = Min (set (map fst (get_RADEC_coord pix2world crpix1 crpix2 Xcell Ycell x y ra_center dec_center))),
              RA_max = Max (set (map fst (get_RADEC_coord pix2world crpix1 crpix2 Xcell Ycell x y ra_center dec_center))),
              dec_min = Min (set (map snd (get_RADEC_coord pix2world crpix1 crpix2 Xcell Ycell x y ra_center dec_center))),
              dec_max = Max (set (map snd (get_RADEC_coord pix2world crpix1 crpix2 Xcell Ycell x y ra_center dec_center)))\<rparr>]
      else [])"

text \<open>The two nested loops \<^verbatim>\<open>for y in range(ny): for x in range(nx)\<close>.\<close>

definition ps1_cell_coord ::
  "(wcs \<Rightarrow> coord \<Rightarrow> coord) \<Rightarrow> (coord list \<Rightarrow> coord list \<Rightarrow> bool) \<Rightarrow> footprint \<Rightarrow> int \<Rightarrow>
     real \<Rightarrow> real \<Rightarrow> real \<Rightarrow> real \<Rightarrow> real \<Rightarrow> real \<Rightarrow> skycell list" where
  "ps1_cell_coord pix2world intersects im projcell Xcell Ycell ra_center dec_center crpix1 crpix2 =
     concat (map (\<lambda>y. concat (map (cell_row pix2world intersects im projcell Xcell Ycell
                                      ra_center dec_center crpix1 crpix2 y) [0..<10]))
                 [0..<10])"

subsection \<open>\<^verbatim>\<open>ps1_grid\<close>\<close>

text \<open>The mask of line 124 and the zones of line 127.\<close>

definition zone_mask :: "footprint \<Rightarrow> zone_row \<Rightarrow> bool" where
  "zone_mask im z \<longleftrightarrow>
     (DEC_MIN z < im_dec_min im \<and> DEC_MAX z > im_dec_min im) \<or>
     (DEC_MIN z < im_dec_max im \<and> DEC_MAX z > im_dec_max im)"

definition all_zones_id :: "zone_row list \<Rightarrow> footprint \<Rightarrow> error + int list" where
  "all_zones_id ps1grid im =
     (case filter (zone_mask im) ps1grid of
        [] \<Rightarrow> Inl IndexError
      | z # zs \<Rightarrow> Inr [ZONE z .. ZONE (last (z # zs))])"

text \<open>\<^verbatim>\<open>np.rint\<close> rounds to the nearest integer, a tie to the even one.\<close>

definition rint :: "real \<Rightarrow> int" where
  "rint x =
     (if x - of_int \<lfloor>x\<rfloor> < 1 / 2 then \<lfloor>x\<rfloor>
      else if 1 / 2 < x - of_int \<lfloor>x\<rfloor> then \<lfloor>x\<rfloor> + 1
      else if even \<lfloor>x\<rfloor> then \<lfloor>x\<rfloor> else \<lfloor>x\<rfloor> + 1)"

definition projcell_index :: "zone_row \<Rightarrow> real \<Rightarrow> int" where
  "projcell_index z ra = rint (of_int (PROJCELL z) + ra * of_int (NBAND z) / 360)"

text \<open>
  The loop \<^verbatim>\<open>for ra in [ra_min, ra_max]\<close> (lines 137--145), with the state
  (\<^verbatim>\<open>idx_bkp\<close>, \<^verbatim>\<open>projcell_idx_list\<close>).
\<close>

fun ra_cells :: "zone_row \<Rightarrow> real list \<Rightarrow> int \<times> int list \<Rightarrow> int \<times> int list" where
  "ra_cells z [] st = st"
| "ra_cells z (ra # ras) (idx_bkp, projcell_idx_list) =
     ra_cells z ras
       (projcell_index z ra,
        if projcell_index z ra \<noteq> idx_bkp then projcell_idx_list @ [projcell_index z ra]
        else projcell_idx_list)"

text \<open>
  One iteration of the loop over the zones, up to \<^verbatim>\<open>total_proj_cell_idx\<close> (lines
  135--147): the catalog row of the zone, the new \<^verbatim>\<open>projcell_idx_list\<close> and the cells to
  examine. \<^verbatim>\<open>float(ps1grid[mask]['PROJCELL'])\<close> raises unless exactly one row of the
  catalog has this zone number; \<^verbatim>\<open>projcell_idx_list[0]\<close> raises on an empty list.
\<close>

definition zone_step ::
  "zone_row list \<Rightarrow> footprint \<Rightarrow> int \<Rightarrow> int list \<Rightarrow> error + zone_row \<times> int list \<times> int list" where
  "zone_step ps1grid im zone projcell_idx_list =
     (case filter (\<lambda>z. ZONE z = zone) ps1grid of
        [z] \<Rightarrow>
          (case snd (ra_cells z [im_ra_min im, im_ra_max im] (- 1, projcell_idx_list)) of
             [] \<Rightarrow> Inl IndexError
           | i # l \<Rightarrow> Inr (z, i # l, [i .. last (i # l)]))
      | _ \<Rightarrow> Inl TypeError)"

text \<open>
  The loop over the zones, as far as the cells to examine go: for each zone in turn, its
  catalog row and its \<^verbatim>\<open>total_proj_cell_idx\<close>. \<^verbatim>\<open>projcell_idx_list\<close> is created once
  before the loop (line 130) and handed from one zone to the next.
\<close>

fun zone_candidates ::
  "zone_row list \<Rightarrow> footprint \<Rightarrow> int list \<Rightarrow> int list \<Rightarrow> error + (zone_row \<times> int list) list" where
  "zone_candidates ps1grid im [] projcell_idx_list = Inr []"
| "zone_candidates ps1grid im (zone # zones) projcell_idx_list =
     (case zone_step ps1grid im zone projcell_idx_list of
        Inl e \<Rightarrow> Inl e
      | Inr (z, l, total_proj_cell_idx) \<Rightarrow>
          (case zone_candidates ps1grid im zones l of
             Inl e \<Rightarrow> Inl e
           | Inr cands \<Rightarrow> Inr ((z, total_proj_cell_idx) # cands)))"

text \<open>
  The query of one projection cell (lines 149--159). The catalog's \<^verbatim>\<open>NBAND\<close> is the
  number of cells of a zone and is positive; the source divides by it.
\<close>

definition cell_query ::
  "(wcs \<Rightarrow> coord \<Rightarrow> coord) \<Rightarrow> (coord list \<Rightarrow> coord list \<Rightarrow> bool) \<Rightarrow> footprint \<Rightarrow>
     zone_row \<Rightarrow> int \<Rightarrow> skycell list" where
  "cell_query pix2world intersects im z cell =
     ps1_cell_coord pix2world intersects im cell (XCELL z) (YCELL z)
       ((of_int cell - of_int (PROJCELL z)) * 360 / of_int (NBAND z))
       (DEC z) (CRPIX1 z) (CRPIX2 z)"

text \<open>
  \<^verbatim>\<open>ps1_grid\<close>. The tables of the cells that gave at least one row are collected in
  \<^verbatim>\<open>all_cells\<close>; one table is returned as it is, and otherwise the tables are stacked by
  astropy's \<^verbatim>\<open>vstack\<close>, which raises when the list is empty. The loop is pure, so the
  model computes the cells of all zones first and queries them afterwards.
\<close>

definition all_cells_of ::
  "(wcs \<Rightarrow> coord \<Rightarrow> coord) \<Rightarrow> (coord list \<Rightarrow> coord list \<Rightarrow> bool) \<Rightarrow> footprint \<Rightarrow>
     (zone_row \<times> int list) list \<Rightarrow> skycell list list" where
  "all_cells_of pix2world intersects im cands =
     filter (\<lambda>q. q \<noteq> [])
       (concat (map (\<lambda>(z, total). map (cell_query pix2world intersects im z) total) cands))"

definition ps1_grid ::
  "(wcs \<Rightarrow> coord \<Rightarrow> coord) \<Rightarrow> (coord list \<Rightarrow> coord list \<Rightarrow> bool) \<Rightarrow> zone_row list \<Rightarrow> footprint \<Rightarrow>
     error + skycell list" where
  "ps1_grid pix2world intersects ps1grid im =
     (case all_zones_id ps1grid im of
        Inl e \<Rightarrow> Inl e
      | Inr zones \<Rightarrow>
          (case zone_candidates ps1grid im zones [] of
             Inl e \<Rightarrow> Inl e
           | Inr cands \<Rightarrow>
               (case all_cells_of pix2world intersects im cands of
                  [] \<Rightarrow> Inl ValueError
                | [c] \<Rightarrow> Inr c
                | cs \<Rightarrow> Inr (concat cs))))"

section \<open>Notions used in the statements\<close>

text \<open>
  Reading a decimal numeral back: the inverse of \<open>str_nat\<close>, used to show that
  \<^verbatim>\<open>%03d\<close> gives different texts for different numbers.
\<close>

definition digit_val :: "char \<Rightarrow> nat" where
  "digit_val c = of_char c - 48"

definition nat_of_str :: "string \<Rightarrow> nat" where
  "nat_of_str s = foldl (\<lambda>a c. 10 * a + digit_val c) 0 s"

text \<open>
  The declination interval of a zone intersects the declination extent of the image (the
  selection rule in the words of the specification).
\<close>

definition zone_intersects :: "footprint \<Rightarrow> zone_row \<Rightarrow> bool" where
  "zone_intersects im z \<longleftrightarrow> DEC_MIN z \<le> im_dec_max im \<and> im_dec_min im \<le> DEC_MAX z"

text \<open>
  The rows of one field: field \<open>f\<close> of partition \<open>k\<close>. The reference of epoch \<open>e\<close> among
  the rows of a field is the timestamp of the first row with that epoch id.
\<close>

definition in_field :: "partition_key \<Rightarrow> int \<Rightarrow> obs_row \<Rightarrow> bool" where
  "in_field k f r \<longleftrightarrow> fieldID r = f \<and> part_key r = k"

definition epoch_reference :: "obs_row list \<Rightarrow> int \<Rightarrow> real option" where
  "epoch_reference rows e = map_option JD (find (\<lambda>q. epochID q = e) rows)"

text \<open>
  The epoch ids that the sweep of \<open>epoch_rows\<close> gives to a list of timestamps, and the rows
  of a field with these ids written into them.
\<close>

fun sweep :: "real \<Rightarrow> real \<Rightarrow> int \<Rightarrow> real list \<Rightarrow> int list" where
  "sweep d ref e [] = []"
| "sweep d ref e (x # xs) =
     (if x \<le> ref + d then e # sweep d ref e xs else (e + 1) # sweep d x (e + 1) xs)"

definition swept :: "real \<Rightarrow> obs_row list \<Rightarrow> obs_row list" where
  "swept d rows =
     (case rows of
        [] \<Rightarrow> []
      | r0 # _ \<Rightarrow> map2 (\<lambda>r v. r\<lparr>epochID := v\<rparr>) rows (sweep d (JD r0) 1 (map JD rows)))"

text \<open>
  On a list of (timestamp, epoch id) pairs: the timestamp of the first pair of an epoch,
  and the three properties of a sweep that started at \<open>ref\<close> with epoch \<open>e\<close>.
\<close>

definition first_in_epoch :: "(real \<times> int) list \<Rightarrow> int \<Rightarrow> real option" where
  "first_in_epoch ps v = map_option fst (find (\<lambda>p. snd p = v) ps)"

definition epochs_ok :: "real \<Rightarrow> real \<Rightarrow> int \<Rightarrow> (real \<times> int) list \<Rightarrow> bool" where
  "epochs_ok d ref e ps \<longleftrightarrow>
     (\<forall>(x, v) \<in> set ps. \<exists>y. first_in_epoch ps v = Some y \<and> y \<le> x \<and> x \<le> y + d) \<and>
     (\<forall>v y. first_in_epoch ps v = Some y \<and> e < v \<longrightarrow> ref + d < y) \<and>
     (\<forall>v v' y y'. first_in_epoch ps v = Some y \<and> first_in_epoch ps v' = Some y' \<and> v < v' \<longrightarrow>
        y < y')"

text \<open>
  Among the rows of one partition: every row that is not the first row of its field lies
  closer than 100 degrees and closer than the radius to that first row.
\<close>

definition threshold_ok :: "(coord \<Rightarrow> coord \<Rightarrow> real) \<Rightarrow> real \<Rightarrow> obs_row list \<Rightarrow> bool" where
  "threshold_ok sep radius rows \<longleftrightarrow>
     (\<forall>r \<in> set rows. \<forall>r0.
        find (\<lambda>q. fieldID q = fieldID r) rows = Some r0 \<and> idx r \<noteq> idx r0 \<longrightarrow>
        sep (RA r, Dec r) (RA r0, Dec r0) < 100 \<and> sep (RA r, Dec r) (RA r0, Dec r0) < radius)"

text \<open>A row without its epoch id: the epoch sweep changes nothing else.\<close>

definition erase_epoch :: "obs_row \<Rightarrow> obs_row" where
  "erase_epoch r = r\<lparr>epochID := 0\<rparr>"

section \<open>Example inputs\<close>

text \<open>
  The separation of two points of the celestial equator whose right ascensions differ by
  at most 180 degrees is the difference of the right ascensions. The examples below keep
  every image on the equator, where \<open>ra_sep\<close> is what \<^verbatim>\<open>SkyCoord.separation\<close> gives.
\<close>

definition ra_sep :: "coord \<Rightarrow> coord \<Rightarrow> real" where
  "ra_sep a b = \<bar>fst a - fst b\<bar>"

text \<open>
  The text of a float that is a whole number (below \<open>10^16\<close>), as \<^verbatim>\<open>str\<close> prints it:
  \<^verbatim>\<open>150.0\<close> for 150. The examples round whole numbers only.
\<close>

definition ex_str_round3 :: "real \<Rightarrow> string" where
  "ex_str_round3 x = str_int \<lfloor>x\<rfloor> @ ''.0''"

text \<open>
  A header without \<^verbatim>\<open>DATE-OBS\<close>, with the given \<^verbatim>\<open>JD\<close> (or none), right ascension
  and instrument, on the equator; and a row of the observation table of such images.
\<close>

definition ex_header :: "real option \<Rightarrow> real \<Rightarrow> string \<Rightarrow> header" where
  "ex_header jd ra inst =
     \<lparr>hdr_DATE_OBS = None, hdr_JD = jd, hdr_CRVAL1 = ra, hdr_CRVAL2 = 0,
      hdr_TELESCOP = ''TEL'', hdr_INSTRUME = inst, hdr_FILTER = ''g''\<rparr>"

definition ex_row :: "nat \<Rightarrow> string \<Rightarrow> string \<Rightarrow> real \<Rightarrow> real \<Rightarrow> int \<Rightarrow> int \<Rightarrow> real \<Rightarrow> obs_row" where
  "ex_row i name inst ra jd f e ref =
     \<lparr>idx = i, filename = name, Telescope = ''TEL'', Instrument = inst, Filter = ''g'',
      RA = ra, Dec = 0, JD = jd, fieldID = f, epochID = e, RA_ref = Some ref,
      Dec_ref = Some 0, stack_filename = None\<rparr>"

text \<open>
  A catalog of three adjacent declination zones, four degrees high each, laid out like
  the zones of the PS1 grid: zone 13 around declination -32 with 72 cells from cell 635,
  zone 14 around -28 with 76 cells from cell 707, zone 15 around -24 with 80 cells from
  cell 783.
\<close>

definition ex_zone :: "int \<Rightarrow> int \<Rightarrow> int \<Rightarrow> real \<Rightarrow> zone_row" where
  "ex_zone n cell nband dec =
     \<lparr>ZONE = n, PROJCELL = cell, NBAND = nband, DEC = dec, DEC_MIN = dec - 2,
      DEC_MAX = dec + 2, XCELL = 6300, YCELL = 6300, CRPIX1 = 240, CRPIX2 = 240\<rparr>"

definition ex_grid :: "zone_row list" where
  "ex_grid = [ex_zone 13 635 72 (- 32), ex_zone 14 707 76 (- 28), ex_zone 15 783 80 (- 24)]"

text \<open>The image between right ascension 10 and 10.5 and between the two declinations.\<close>

definition ex_image :: "real \<Rightarrow> real \<Rightarrow> footprint" where
  "ex_image dec_lo dec_hi = ((10, dec_lo), (10, dec_hi), (21 / 2, dec_hi), (21 / 2, dec_lo))"

text \<open>
  Stand-ins for the two geometry libraries in the examples: the linear part of the
  tangent-plane projection (world = reference value + step * (pixel - reference pixel)),
  and the overlap of bounding boxes, which is the intersection of polygons when both are
  rectangles along the axes, as the images and cells of the examples are under
  \<open>ex_pix2world\<close>.
\<close>

definition ex_pix2world :: "wcs \<Rightarrow> coord \<Rightarrow> coord" where
  "ex_pix2world w p =
     (fst (wcs_crval w) + fst (wcs_cdelt w) * (fst p - fst (wcs_crpix w)),
      snd (wcs_crval w) + snd (wcs_cdelt w) * (snd p - snd (wcs_crpix w)))"

definition ex_intersects :: "coord list \<Rightarrow> coord list \<Rightarrow> bool" where
  "ex_intersects p q \<longleftrightarrow>
     Min (set (map fst p)) \<le> Max (set (map fst q)) \<and>
     Min (set (map fst q)) \<le> Max (set (map fst p)) \<and>
     Min (set (map snd p)) \<le> Max (set (map snd q)) \<and>
     Min (set (map snd q)) \<le> Max (set (map snd p))"

definition ex_skycell :: "string \<Rightarrow> real \<Rightarrow> real \<Rightarrow> skycell" where
  "ex_skycell c ra_lo ra_hi =
     \<lparr>projcell_id = ''0709'', cell_id = c, RA_min = ra_lo, RA_max = ra_hi,
      dec_min = - (6821 / 240), dec_max = - (1679 / 60)\<rparr>"

section \<open>The reference coordinate written by the clusterer\<close>

text \<open>
  Claim C2 (the code departs from it). A record assigned to an existing field should get
  that field's reference coordinate, the coordinate of the field's first member. The loop
  over the fields overwrites \<^verbatim>\<open>ra_ref\<close> and \<^verbatim>\<open>dec_ref\<close> in every iteration, so what is
  written is the reference of the field examined last. Three images of one partition on
  the equator, at right ascension 0, 10 and 0.01, radius one degree: the third image joins
  field 1, whose first member is at right ascension 0, and gets the reference 10 of
  field 2.
\<close>

theorem table_obs_reference_of_last_field:
  "table_obs ra_sep
     [(''a.fits'', ex_header (Some 100) 0 ''CAM''),
      (''b.fits'', ex_header (Some 101) 10 ''CAM''),
      (''c.fits'', ex_header (Some 102) (1 / 100) ''CAM'')] 1 1 =
   Inr [ex_row 0 ''a.fits'' ''CAM'' 0 2400 1 1 0,
        ex_row 1 ''b.fits'' ''CAM'' 10 2424 2 1 10,
        ex_row 2 ''c.fits'' ''CAM'' (1 / 100) 2448 1 2 10]"
  by code_simp

section \<open>Images without a date\<close>

text \<open>
  Claim C3 (the code departs from it). An image with neither \<^verbatim>\<open>DATE-OBS\<close> nor
  \<^verbatim>\<open>JD\<close> should not enter the table with a timestamp. The source prints a message and
  appends the value that \<^verbatim>\<open>hr\<close> still holds from the image before: here image
  \<^verbatim>\<open>b.fits\<close> has no date and enters the table with the timestamp 2400 of
  \<^verbatim>\<open>a.fits\<close>, and is given a field and an epoch like any other row. When the first image
  is the one without a date, \<^verbatim>\<open>hr\<close> is unbound and the whole call fails.
\<close>

theorem table_obs_stale_timestamp:
  "table_obs ra_sep
     [(''a.fits'', ex_header (Some 100) 0 ''CAM''),
      (''b.fits'', ex_header None 10 ''CAM'')] 1 1 =
   Inr [ex_row 0 ''a.fits'' ''CAM'' 0 2400 1 1 0, ex_row 1 ''b.fits'' ''CAM'' 10 2400 2 1 10] \<and>
   table_obs ra_sep
     [(''b.fits'', ex_header None 10 ''CAM''),
      (''a.fits'', ex_header (Some 100) 0 ''CAM'')] 1 1 =
   Inl UnboundLocalError"
  by code_simp

section \<open>The cells examined in each zone\<close>

text \<open>
  Claim C6 (the code departs from it). The cells examined in a zone should be the range
  between the two indices computed for that zone. \<^verbatim>\<open>projcell_idx_list\<close> is never
  emptied between the zones, so from the second zone on the range starts at the first
  index of the first zone. The image between declination -31 and -29 selects the zones 13
  and 14; its two indices are 637 and 637 in zone 13, 709 and 709 in zone 14; the cells
  examined in zone 14 are 637 to 709.
\<close>

theorem zone_candidates_keep_first_zone:
  "all_zones_id ex_grid (ex_image (- 31) (- 29)) = Inr [13, 14] \<and>
   map (projcell_index (ex_zone 14 707 76 (- 28)))
     [im_ra_min (ex_image (- 31) (- 29)), im_ra_max (ex_image (- 31) (- 29))] = [709, 709] \<and>
   zone_candidates ex_grid (ex_image (- 31) (- 29)) [13, 14] [] =
     Inr [(ex_zone 13 635 72 (- 32), [637]), (ex_zone 14 707 76 (- 28), [637..709])]"
  by code_simp

section \<open>Failures of the resolver\<close>

lemma all_cells_of_nonempty: "c \<in> set (all_cells_of pix2world intersects im cands) \<Longrightarrow> c \<noteq> []"
  by (simp add: all_cells_of_def)

lemma ps1_grid_not_empty: "ps1_grid pix2world intersects ps1grid im \<noteq> Inr []"
proof -
  have ne: "\<And>cs. cs = all_cells_of pix2world intersects im c \<Longrightarrow> \<forall>q \<in> set cs. q \<noteq> []" for c
    using all_cells_of_nonempty by blast
  show ?thesis
    unfolding ps1_grid_def
    by (auto split: sum.splits list.splits dest!: ne [OF sym])
qed

text \<open>When the queries of all examined cells come back empty, the call fails.\<close>

lemma ps1_grid_no_cells:
  "all_zones_id ps1grid im = Inr zones \<Longrightarrow> zone_candidates ps1grid im zones [] = Inr cands \<Longrightarrow>
     all_cells_of pix2world intersects im cands = [] \<Longrightarrow>
     ps1_grid pix2world intersects ps1grid im = Inl ValueError"
  by (simp add: ps1_grid_def)

text \<open>
  Claim C1 (the code departs from it). The resolver should not raise for an image that
  overlaps a zone, and should return the empty set when no cell intersects the image.
  \<^item> It never returns the empty set: when no cell intersects, \<^verbatim>\<open>all_cells\<close> is empty,
    its length is not 1, and \<^verbatim>\<open>vstack\<close> of the empty list raises.
  \<^item> The image between declination -30 and -26 covers zone 14 of the example catalog
    exactly. The mask of line 124 compares strictly, no zone has the minimum or the
    maximum declination of the image strictly inside, and \<^verbatim>\<open>ps1grid[mask]['ZONE'][0]\<close>
    raises.
\<close>

theorem ps1_grid_raises:
  "ps1_grid pix2world intersects ps1grid im \<noteq> Inr [] \<and>
   ps1_grid pix2world intersects ex_grid (ex_image (- 30) (- 26)) = Inl IndexError"
proof
  show "ps1_grid pix2world intersects ps1grid im \<noteq> Inr []"
    by (rule ps1_grid_not_empty)
  have "all_zones_id ex_grid (ex_image (- 30) (- 26)) = Inl IndexError"
    by code_simp
  then show "ps1_grid pix2world intersects ex_grid (ex_image (- 30) (- 26)) = Inl IndexError"
    by (simp add: ps1_grid_def)
qed

section \<open>The identifiers of the sky cells\<close>

lemma str_nat_digit: "n < 10 \<Longrightarrow> str_nat n = [digit_char n]"
  by (simp add: str_nat.simps)

lemma cell_row_ids:
  "c \<in> set (cell_row P I im n X Y ra dec c1 c2 y x) \<Longrightarrow> y < 10 \<Longrightarrow> x < 10 \<Longrightarrow>
     cell_id c = [CHR ''0'', digit_char y, digit_char x] \<and>
     projcell_id c = (if n < 1000 then CHR ''0'' # str_int n else str_int n)"
  by (auto simp: cell_row_def cell_str_def projcell_str_def str_nat_digit split: if_splits)

lemma ps1_cell_coord_ids:
  assumes "c \<in> set (ps1_cell_coord P I im n X Y ra dec c1 c2)"
  shows "\<exists>y x. y < 10 \<and> x < 10 \<and> cell_id c = [CHR ''0'', digit_char y, digit_char x] \<and>
     projcell_id c = (if n < 1000 then CHR ''0'' # str_int n else str_int n)"
proof -
  from assms obtain y x where "y < 10" "x < 10" "c \<in> set (cell_row P I im n X Y ra dec c1 c2 y x)"
    unfolding ps1_cell_coord_def by auto
  then show ?thesis using cell_row_ids by blast
qed

lemma all_cells_of_query:
  "q \<in> set (all_cells_of P I im cands) \<Longrightarrow>
     \<exists>z total n. (z, total) \<in> set cands \<and> n \<in> set total \<and> q = cell_query P I im z n"
  unfolding all_cells_of_def by auto

text \<open>Every row of the result comes from the query of a cell examined in some zone.\<close>

lemma ps1_grid_member:
  assumes "ps1_grid P I g im = Inr cells" and "c \<in> set cells"
  shows "\<exists>zones cands z total n. all_zones_id g im = Inr zones \<and>
           zone_candidates g im zones [] = Inr cands \<and>
           (z, total) \<in> set cands \<and> n \<in> set total \<and> c \<in> set (cell_query P I im z n)"
proof -
  from assms(1) obtain zones cands where
    zs: "all_zones_id g im = Inr zones" and cs: "zone_candidates g im zones [] = Inr cands"
    and r: "(case all_cells_of P I im cands of [] \<Rightarrow> Inl ValueError | [c] \<Rightarrow> Inr c
              | cs \<Rightarrow> Inr (concat cs)) = Inr cells"
    unfolding ps1_grid_def by (auto split: sum.splits)
  from r have "cells = concat (all_cells_of P I im cands)"
    by (auto split: list.splits)
  with assms(2) obtain q where "q \<in> set (all_cells_of P I im cands)" "c \<in> set q"
    by auto
  with all_cells_of_query [of q P I im cands] zs cs show ?thesis by blast
qed

lemma cell_str_count: "card {cell_str y x |y x. y < 10 \<and> x < 10} = 100"
proof -
  let ?L = "concat (map (\<lambda>y. map (cell_str y) [0..<10]) [0..<10])"
  have s: "{cell_str y x |y x. y < 10 \<and> x < 10} = set ?L"
    by auto blast
  have d: "distinct ?L"
    by code_simp
  have l: "length ?L = 100"
    by code_simp
  show ?thesis
    unfolding s using distinct_card [OF d] l by (simp only:)
qed

text \<open>
  Claim C10. Every row \<open>c\<close> that \<^verbatim>\<open>ps1_grid\<close> returns comes from the query of a
  projection cell \<open>n\<close>; its \<^verbatim>\<open>cell_id\<close> is the character 0 followed by the digit of the
  row \<open>y\<close> and the digit of the column \<open>x\<close>, both below 10, and its \<^verbatim>\<open>projcell_id\<close> is
  the decimal text of \<open>n\<close> with one 0 in front exactly when \<open>n < 1000\<close>. There are exactly
  100 such cell identifiers.
\<close>

theorem ps1_grid_cell_ids:
  assumes "ps1_grid P I g im = Inr cells" and "c \<in> set cells"
  shows "(\<exists>z n y x. c \<in> set (cell_query P I im z n) \<and> y < 10 \<and> x < 10 \<and>
            cell_id c = [CHR ''0'', digit_char y, digit_char x] \<and>
            projcell_id c = (if n < 1000 then CHR ''0'' # str_int n else str_int n)) \<and>
         card {cell_str y x |y x. y < 10 \<and> x < 10} = 100"
proof -
  from ps1_grid_member [OF assms] obtain z n where q: "c \<in> set (cell_query P I im z n)"
    by blast
  then have "c \<in> set (ps1_cell_coord P I im n (XCELL z) (YCELL z)
       ((of_int n - of_int (PROJCELL z)) * 360 / of_int (NBAND z)) (DEC z) (CRPIX1 z) (CRPIX2 z))"
    by (simp add: cell_query_def)
  from ps1_cell_coord_ids [OF this] q cell_str_count show ?thesis by blast
qed

text \<open>
  An image of a tenth of a degree inside zone 14: the resolver returns the cells 042 and
  043 of projection cell 709, named 0709.
\<close>

theorem ps1_grid_cell_ids_witness:
  "ps1_grid ex_pix2world ex_intersects ex_grid (ex_image (- (283 / 10)) (- (282 / 10))) =
     Inr [ex_skycell ''042'' (4681 / 456) (9761 / 912),
          ex_skycell ''043'' (14989 / 1520) (7827 / 760)] \<and>
   (\<exists>z n y x. ex_skycell ''042'' (4681 / 456) (9761 / 912)
           \<in> set (cell_query ex_pix2world ex_intersects
                    (ex_image (- (283 / 10)) (- (282 / 10))) z n) \<and>
         y < 10 \<and> x < 10 \<and>
         cell_id (ex_skycell ''042'' (4681 / 456) (9761 / 912)) =
           [CHR ''0'', digit_char y, digit_char x] \<and>
         projcell_id (ex_skycell ''042'' (4681 / 456) (9761 / 912)) =
           (if n < 1000 then CHR ''0'' # str_int n else str_int n))"
proof -
  have e: "ps1_grid ex_pix2world ex_intersects ex_grid (ex_image (- (283 / 10)) (- (282 / 10))) =
     Inr [ex_skycell ''042'' (4681 / 456) (9761 / 912),
          ex_skycell ''043'' (14989 / 1520) (7827 / 760)]"
    by code_simp
  show ?thesis
    using e ps1_grid_cell_ids [OF e, of "ex_skycell ''042'' (4681 / 456) (9761 / 912)"]
    by simp
qed

section \<open>The names of the groups\<close>

lemma digit_cases: "d < 10 \<Longrightarrow> d \<in> {0, 1, 2, 3, 4, 5, 6, 7, 8, 9::nat}"
  by auto

lemma digit_val_char: "d < 10 \<Longrightarrow> digit_val (digit_char d) = d"
  by (drule digit_cases) (auto simp: digit_val_def digit_char_def)

lemma digit_char_in: "d < 10 \<Longrightarrow> digit_char d \<in> set ''0123456789''"
  by (drule digit_cases) (auto simp: digit_char_def)

lemma nat_of_str_snoc: "nat_of_str (s @ [c]) = 10 * nat_of_str s + digit_val c"
  by (simp add: nat_of_str_def)

lemma nat_of_str_str_nat: "nat_of_str (str_nat n) = n"
proof (induction n rule: str_nat.induct)
  case (1 n)
  show ?case
  proof (cases "n < 10")
    case True
    then show ?thesis
      by (simp add: str_nat.simps [of n] nat_of_str_def digit_val_char)
  next
    case False
    with 1 have "nat_of_str (str_nat (n div 10)) = n div 10" by simp
    with False show ?thesis
      by (simp add: str_nat.simps [of n] nat_of_str_snoc digit_val_char)
  qed
qed

lemma str_nat_chars: "set (str_nat n) \<subseteq> set ''0123456789''"
proof (induction n rule: str_nat.induct)
  case (1 n)
  show ?case
  proof (cases "n < 10")
    case True
    then show ?thesis
      using digit_char_in [of n] by (simp add: str_nat.simps [of n])
  next
    case False
    with 1 have "set (str_nat (n div 10)) \<subseteq> set ''0123456789''" by simp
    moreover have "digit_char (n mod 10) \<in> set ''0123456789''"
      by (rule digit_char_in) simp
    ultimately show ?thesis
      using False by (simp add: str_nat.simps [of n])
  qed
qed

lemma str_nat_nonempty: "str_nat n \<noteq> []"
  by (simp add: str_nat.simps [of n])

lemma nat_of_str_zeros: "nat_of_str (replicate k CHR ''0'' @ s) = nat_of_str s"
proof -
  have "foldl (\<lambda>a c. 10 * a + digit_val c) 0 (replicate k CHR ''0'') = 0"
    by (induction k) (simp_all add: digit_val_def)
  then show ?thesis by (simp add: nat_of_str_def)
qed

lemma nat_of_str_zfill: "nat_of_str (zfill w (str_nat n)) = n"
  by (simp add: zfill_def nat_of_str_zeros nat_of_str_str_nat)

lemma zfill_chars: "set (zfill w (str_nat n)) \<subseteq> set ''0123456789''"
  using str_nat_chars [of n] by (auto simp: zfill_def)

lemma zfill_no_minus: "zfill w (str_nat n) \<noteq> CHR ''-'' # s"
proof
  assume "zfill w (str_nat n) = CHR ''-'' # s"
  then have "CHR ''-'' \<in> set (zfill w (str_nat n))" by simp
  with zfill_chars [of w n] show False by auto
qed

text \<open>\<^verbatim>\<open>%03d\<close> gives different texts for different integers, and no underscore.\<close>

lemma fmt_03d_inj: "fmt_03d i = fmt_03d j \<Longrightarrow> i = j"
proof -
  assume eq: "fmt_03d i = fmt_03d j"
  consider "i < 0" "j < 0" | "0 \<le> i" "0 \<le> j" | "i < 0" "0 \<le> j" | "0 \<le> i" "j < 0"
    by linarith
  then show ?thesis
  proof cases
    case 1
    with eq have "zfill 2 (str_nat (nat (- i))) = zfill 2 (str_nat (nat (- j)))"
      by (simp add: fmt_03d_def)
    then have "nat_of_str (zfill 2 (str_nat (nat (- i)))) =
        nat_of_str (zfill 2 (str_nat (nat (- j))))"
      by simp
    with 1 show ?thesis by (simp add: nat_of_str_zfill)
  next
    case 2
    with eq have "zfill 3 (str_nat (nat i)) = zfill 3 (str_nat (nat j))"
      by (simp add: fmt_03d_def)
    then have "nat_of_str (zfill 3 (str_nat (nat i))) = nat_of_str (zfill 3 (str_nat (nat j)))"
      by simp
    with 2 show ?thesis by (simp add: nat_of_str_zfill)
  next
    case 3
    with eq have "zfill 3 (str_nat (nat j)) = CHR ''-'' # zfill 2 (str_nat (nat (- i)))"
      by (simp add: fmt_03d_def)
    with zfill_no_minus show ?thesis by blast
  next
    case 4
    with eq have "zfill 3 (str_nat (nat i)) = CHR ''-'' # zfill 2 (str_nat (nat (- j)))"
      by (simp add: fmt_03d_def)
    with zfill_no_minus show ?thesis by blast
  qed
qed

lemma fmt_03d_no_underscore: "CHR ''_'' \<notin> set (fmt_03d i)"
  using zfill_chars [of 2 "nat (- i)"] zfill_chars [of 3 "nat i"]
  by (auto simp: fmt_03d_def)

lemma split_last_sep:
  "c \<notin> set u \<Longrightarrow> c \<notin> set u' \<Longrightarrow> x @ c # u = x' @ c # u' \<Longrightarrow> x = x' \<and> u = u'"
proof (induction x arbitrary: x')
  case Nil
  then show ?case by (cases x') auto
next
  case (Cons a x)
  then show ?case by (cases x') auto
qed

text \<open>
  Claim C4, as amended. The name of a group determines the pair (field, epoch): two
  groups whose pairs differ get different names, whatever their telescope, filter and
  reference coordinate; so the groups of one partition get distinct names. The name does
  not determine the partition: the instrument is not part of it, and blanks of the
  telescope and the filter are dropped (see the counterexample below).
\<close>

theorem list_name_determines_ids:
  assumes "list_name tel band ra_txt dec_txt f e = list_name tel' band' ra_txt' dec_txt' f' e'"
  shows "f = f' \<and> e = e'"
proof -
  let ?p = "remove_char CHR '' '' tel @ ''_'' @ remove_char CHR '' '' band @ ''_'' @
     remove_char CHR ''.'' ra_txt @ ''_'' @ remove_char CHR ''.'' dec_txt @ ''_field''"
  let ?p' = "remove_char CHR '' '' tel' @ ''_'' @ remove_char CHR '' '' band' @ ''_'' @
     remove_char CHR ''.'' ra_txt' @ ''_'' @ remove_char CHR ''.'' dec_txt' @ ''_field''"
  from assms have "(?p @ CHR ''_'' # fmt_03d f) @ CHR ''_'' # fmt_03d e =
      (?p' @ CHR ''_'' # fmt_03d f') @ CHR ''_'' # fmt_03d e'"
    by (simp add: list_name_def)
  from split_last_sep [OF fmt_03d_no_underscore fmt_03d_no_underscore this]
  have 1: "?p @ CHR ''_'' # fmt_03d f = ?p' @ CHR ''_'' # fmt_03d f'"
    and 2: "fmt_03d e = fmt_03d e'"
    by blast+
  from split_last_sep [OF fmt_03d_no_underscore fmt_03d_no_underscore 1]
  have "fmt_03d f = fmt_03d f'" by blast
  with 2 show ?thesis by (blast dest: fmt_03d_inj)
qed

theorem list_name_determines_ids_witness:
  "list_name ''TEL'' ''g'' ''150.0'' ''20.0'' 2 1 =
     list_name ''T E L'' '' g'' ''1500'' ''200.'' 2 1 \<and> (2::int) = 2 \<and> (1::int) = 1"
proof -
  have e: "list_name ''TEL'' ''g'' ''150.0'' ''20.0'' 2 1 =
      list_name ''T E L'' '' g'' ''1500'' ''200.'' 2 1"
    by code_simp
  show ?thesis using e list_name_determines_ids [OF e] by simp
qed

text \<open>
  Claim C4 as stated fails: two images taken with the same telescope and filter at the
  same position with two instruments are two partitions, hence two groups
  ((TEL, CAM1, g), 1, 1) and ((TEL, CAM2, g), 1, 1), and both lists get the same name (the
  second file replaces the first).
\<close>

theorem makelists_name_clash:
  "table_obs ra_sep
     [(''a.fits'', ex_header (Some 100) 150 ''CAM1''),
      (''b.fits'', ex_header (Some 100) 150 ''CAM2'')] (10 / 60) 1 =
   Inr [ex_row 0 ''a.fits'' ''CAM1'' 150 2400 1 1 150,
        ex_row 1 ''b.fits'' ''CAM2'' 150 2400 1 1 150] \<and>
   makelists ra_sep ex_str_round3
     [(''a.fits'', ex_header (Some 100) 150 ''CAM1''),
      (''b.fits'', ex_header (Some 100) 150 ''CAM2'')] 10 1 =
   Inr [(''TEL_g_1500_00_field_001_001'', [''a.fits'']),
        (''TEL_g_1500_00_field_001_001'', [''b.fits''])]"
  by code_simp

section \<open>The zones that are evaluated\<close>

lemma sorted_map_nth:
  "sorted (map f xs) \<Longrightarrow> i \<le> j \<Longrightarrow> j < length xs \<Longrightarrow> f (xs ! i) \<le> f (xs ! j)"
  using sorted_nth_mono [of "map f xs" i j] by simp

lemma masked_between:
  assumes "sorted (map ZONE g)" and "a \<in> set (filter P g)"
  shows "filter P g \<noteq> [] \<and> ZONE (hd (filter P g)) \<le> ZONE a \<and>
    ZONE a \<le> ZONE (last (filter P g))"
proof -
  have s: "sorted (map ZONE (filter P g))"
    using assms(1) by (simp add: sorted_filter)
  have ne: "filter P g \<noteq> []"
    using length_pos_if_in_set [OF assms(2)] by auto
  from assms(2) obtain i where i: "i < length (filter P g)" "filter P g ! i = a"
    unfolding in_set_conv_nth by blast
  have "ZONE (filter P g ! 0) \<le> ZONE (filter P g ! i)"
    by (rule sorted_map_nth [OF s _ i(1)]) simp
  moreover have "ZONE (filter P g ! i) \<le> ZONE (filter P g ! (length (filter P g) - 1))"
    using i(1) by (intro sorted_map_nth [OF s]) auto
  ultimately show ?thesis
    using ne i by (simp add: hd_conv_nth last_conv_nth)
qed

lemma zone_order:
  assumes "sorted (map ZONE g)" and "sorted_wrt (\<lambda>a b. DEC_MAX a \<le> DEC_MIN b) g"
    and "a \<in> set g" and "z \<in> set g" and "DEC_MIN a < DEC_MAX z"
  shows "ZONE a \<le> ZONE z"
proof -
  from assms(3,4) obtain i j where i: "i < length g" "g ! i = a" and j: "j < length g" "g ! j = z"
    by (auto simp: in_set_conv_nth)
  consider "i \<le> j" | "j < i" by linarith
  then show ?thesis
  proof cases
    case 1
    from sorted_map_nth [OF assms(1) 1 j(1)] i j show ?thesis by simp
  next
    case 2
    have "DEC_MAX (g ! j) \<le> DEC_MIN (g ! i)"
      by (rule sorted_wrt_nth_less [OF assms(2) 2 i(1)])
    with i j assms(5) show ?thesis by simp
  qed
qed

text \<open>
  What the selection achieves. Let the catalog list its zones in ascending order (zone
  numbers ascending, the upper bound of a zone at most the lower bound of every later
  zone), and let the minimum and the maximum declination of the image each lie strictly
  inside some zone. Then every zone whose declination interval intersects the extent of
  the image is among the zones the resolver evaluates, the zones contained in the extent
  included.
\<close>

theorem all_zones_id_covers:
  assumes zs: "sorted (map ZONE ps1grid)"
    and ds: "sorted_wrt (\<lambda>a b. DEC_MAX a \<le> DEC_MIN b) ps1grid"
    and lo: "a \<in> set ps1grid" "DEC_MIN a < im_dec_min im" "im_dec_min im < DEC_MAX a"
    and hi: "b \<in> set ps1grid" "DEC_MIN b < im_dec_max im" "im_dec_max im < DEC_MAX b"
    and z: "z \<in> set ps1grid" "zone_intersects im z"
  shows "\<exists>ids. all_zones_id ps1grid im = Inr ids \<and> ZONE z \<in> set ids"
proof -
  let ?m = "filter (zone_mask im) ps1grid"
  have am: "a \<in> set ?m" and bm: "b \<in> set ?m"
    using lo hi by (auto simp: zone_mask_def)
  from masked_between [OF zs am] masked_between [OF zs bm]
  have ne: "?m \<noteq> []" and 1: "ZONE (hd ?m) \<le> ZONE a" and 2: "ZONE b \<le> ZONE (last ?m)"
    by blast+
  from z(2) lo(2) have "DEC_MIN a < DEC_MAX z"
    by (simp add: zone_intersects_def)
  from zone_order [OF zs ds lo(1) z(1) this] have 3: "ZONE a \<le> ZONE z" .
  from z(2) hi(3) have "DEC_MIN z < DEC_MAX b"
    by (simp add: zone_intersects_def)
  from zone_order [OF zs ds z(1) hi(1) this] have 4: "ZONE z \<le> ZONE b" .
  from ne obtain y ys where m: "?m = y # ys" by (cases ?m) auto
  then have "all_zones_id ps1grid im = Inr [ZONE (hd ?m) .. ZONE (last ?m)]"
    by (simp add: all_zones_id_def)
  with 1 2 3 4 show ?thesis by auto
qed

text \<open>
  The image between declination -31 and -25 starts inside zone 13 and ends inside zone
  15; zone 14 lies inside its extent and is evaluated.
\<close>

theorem all_zones_id_covers_witness:
  "\<exists>ids. all_zones_id ex_grid (ex_image (- 31) (- 25)) = Inr ids \<and>
     ZONE (ex_zone 14 707 76 (- 28)) \<in> set ids"
proof -
  have 1: "sorted (map ZONE ex_grid)" by code_simp
  have 2: "sorted_wrt (\<lambda>a b. DEC_MAX a \<le> DEC_MIN b) ex_grid" by code_simp
  have 3: "ex_zone 13 635 72 (- 32) \<in> set ex_grid" by code_simp
  have 4: "DEC_MIN (ex_zone 13 635 72 (- 32)) < im_dec_min (ex_image (- 31) (- 25))"
    by code_simp
  have 5: "im_dec_min (ex_image (- 31) (- 25)) < DEC_MAX (ex_zone 13 635 72 (- 32))"
    by code_simp
  have 6: "ex_zone 15 783 80 (- 24) \<in> set ex_grid" by code_simp
  have 7: "DEC_MIN (ex_zone 15 783 80 (- 24)) < im_dec_max (ex_image (- 31) (- 25))"
    by code_simp
  have 8: "im_dec_max (ex_image (- 31) (- 25)) < DEC_MAX (ex_zone 15 783 80 (- 24))"
    by code_simp
  have 9: "ex_zone 14 707 76 (- 28) \<in> set ex_grid" by code_simp
  have 10: "zone_intersects (ex_image (- 31) (- 25)) (ex_zone 14 707 76 (- 28))" by code_simp
  show ?thesis
    by (rule all_zones_id_covers [OF 1 2 3 4 5 6 7 8 9 10])
qed

text \<open>
  Claim C8 (the code departs from it). Every zone whose declination interval intersects
  the extent of the image should be evaluated. The mask of line 124 looks for the zones
  that have the minimum or the maximum declination of the image strictly inside, so an
  endpoint that coincides with a zone boundary selects no zone. In the example catalog,
  zone 14 reaches from declination -30 to -26.
  \<^item> The image between -30 and -25 contains zone 14, its minimum is the lower bound of
    the zone, and only zone 15 is evaluated.
  \<^item> The image between -26 and -25 meets zone 14 in its upper bound, and only zone 15 is
    evaluated.
  \<^item> The image between -30 and -26 is zone 14 exactly; no zone passes the mask and
    \<^verbatim>\<open>ps1grid[mask]['ZONE'][0]\<close> raises.
\<close>

theorem all_zones_id_misses_boundary:
  "ex_zone 14 707 76 (- 28) \<in> set ex_grid \<and> ZONE (ex_zone 14 707 76 (- 28)) = 14 \<and>
   zone_intersects (ex_image (- 30) (- 25)) (ex_zone 14 707 76 (- 28)) \<and>
   all_zones_id ex_grid (ex_image (- 30) (- 25)) = Inr [15] \<and>
   zone_intersects (ex_image (- 26) (- 25)) (ex_zone 14 707 76 (- 28)) \<and>
   all_zones_id ex_grid (ex_image (- 26) (- 25)) = Inr [15] \<and>
   zone_intersects (ex_image (- 30) (- 26)) (ex_zone 14 707 76 (- 28)) \<and>
   all_zones_id ex_grid (ex_image (- 30) (- 26)) = Inl IndexError"
  by code_simp

section \<open>The loops over the table\<close>

text \<open>
  A loop over distinct keys, seen through a view \<open>Q\<close> of the table that only the
  iteration of key \<open>k\<close> changes.
\<close>

lemma fold_select:
  assumes "distinct ks" and "ok t"
    and "\<And>t k'. ok t \<Longrightarrow> ok (F k' t)"
    and "\<And>t k'. ok t \<Longrightarrow> k' \<noteq> k \<Longrightarrow> Q (F k' t) = Q t"
    and "\<And>t. ok t \<Longrightarrow> Q (F k t) = S (Q t)"
  shows "ok (fold F ks t) \<and> Q (fold F ks t) = (if k \<in> set ks then S (Q t) else Q t)"
  using assms(1,2)
proof (induction ks arbitrary: t)
  case Nil
  then show ?case by simp
next
  case (Cons a ks)
  from Cons.prems have d: "distinct ks" and na: "a \<notin> set ks" by auto
  have i: "ok (F a t)" using Cons.prems(2) assms(3) by blast
  note IH = Cons.IH [OF d i]
  show ?case
  proof (cases "a = k")
    case True
    with IH na assms(5) [OF Cons.prems(2)] show ?thesis by simp
  next
    case False
    with IH assms(4) [OF Cons.prems(2), of a] show ?thesis by auto
  qed
qed

lemma distinct_idx_eq:
  "distinct (map idx t) \<Longrightarrow> r \<in> set t \<Longrightarrow> r' \<in> set t \<Longrightarrow> idx r = idx r' \<Longrightarrow> r = r'"
  by (auto simp: distinct_map dest: inj_onD)

subsection \<open>The epoch sweep changes the epoch ids of its own field only\<close>

lemma set_epoch_frame:
  "map idx (set_epoch i e t) = map idx t"
  "map JD (set_epoch i e t) = map JD t"
  "map fieldID (set_epoch i e t) = map fieldID t"
  "map part_key (set_epoch i e t) = map part_key t"
  by (simp_all add: set_epoch_def part_key_def)

lemma set_epoch_filter:
  "filter (in_field k f) (set_epoch i e t) = set_epoch i e (filter (in_field k f) t)"
  by (induction t) (auto simp: set_epoch_def in_field_def part_key_def)

lemma set_epoch_absent: "i \<notin> idx ` set t \<Longrightarrow> set_epoch i e t = t"
  by (induction t) (auto simp: set_epoch_def)

lemma set_epoch_at:
  "distinct (map idx (pre @ r # post)) \<Longrightarrow>
     set_epoch (idx r) e (pre @ r # post) = pre @ r\<lparr>epochID := e\<rparr> # post"
proof -
  assume d: "distinct (map idx (pre @ r # post))"
  then have "idx r \<notin> idx ` set pre" "idx r \<notin> idx ` set post" by auto
  then have "set_epoch (idx r) e pre = pre" "set_epoch (idx r) e post = post"
    by (simp_all add: set_epoch_absent)
  then show ?thesis by (simp add: set_epoch_def)
qed

lemma epoch_rows_own:
  "distinct (map idx (pre @ rs)) \<Longrightarrow>
     snd (snd (epoch_rows d rs (ref, e, pre @ rs))) =
       pre @ map2 (\<lambda>r v. r\<lparr>epochID := v\<rparr>) rs (sweep d ref e (map JD rs))"
proof (induction rs arbitrary: pre ref e)
  case Nil
  then show ?case by simp
next
  case (Cons r rs)
  have d': "\<And>v. distinct (map idx ((pre @ [r\<lparr>epochID := v\<rparr>]) @ rs))"
    using Cons.prems by simp
  show ?case
    using Cons.IH [OF d'] set_epoch_at [OF Cons.prems] by simp
qed

lemma epoch_rows_absent:
  "idx ` set rs \<inter> idx ` set t = {} \<Longrightarrow> snd (snd (epoch_rows d rs (ref, e, t))) = t"
  by (induction rs arbitrary: ref e) (auto simp: set_epoch_absent)

lemma epoch_rows_filter:
  "filter (in_field k f) (snd (snd (epoch_rows d rs (ref, e, t)))) =
     snd (snd (epoch_rows d rs (ref, e, filter (in_field k f) t)))"
  by (induction rs arbitrary: ref e t) (simp_all add: set_epoch_filter)

lemma epoch_rows_frame:
  "map idx (snd (snd (epoch_rows d rs (ref, e, t)))) = map idx t"
  "map JD (snd (snd (epoch_rows d rs (ref, e, t)))) = map JD t"
  "map fieldID (snd (snd (epoch_rows d rs (ref, e, t)))) = map fieldID t"
  "map part_key (snd (snd (epoch_rows d rs (ref, e, t)))) = map part_key t"
  by (induction rs arbitrary: ref e t; simp add: set_epoch_frame)+

lemma in_field_fold: "(\<lambda>r. fieldID r = f \<and> part_key r = k) = in_field k f"
  by (auto simp: in_field_def)

lemma in_field_disjoint:
  assumes "distinct (map idx t)" and "(k', f') \<noteq> (k, f)"
  shows "idx ` set (filter (in_field k' f') t) \<inter> idx ` set (filter (in_field k f) t) = {}"
proof -
  { fix r r' assume "r \<in> set t" "r' \<in> set t" "in_field k' f' r" "in_field k f r'" "idx r = idx r'"
    with distinct_idx_eq [OF assms(1)] have "r = r'" by blast
    with \<open>in_field k' f' r\<close> \<open>in_field k f r'\<close> assms(2) have False
      by (auto simp: in_field_def) }
  then show ?thesis by auto
qed

lemma epoch_field_unfold:
  "filter (in_field k f) t = r0 # rs \<Longrightarrow>
     epoch_field d k f t = snd (snd (epoch_rows d (filter (in_field k f) t) (JD r0, 1, t)))"
  by (simp add: epoch_field_def in_field_fold del: epoch_rows.simps)

lemma epoch_field_Nil: "filter (in_field k f) t = [] \<Longrightarrow> epoch_field d k f t = t"
  by (simp add: epoch_field_def in_field_fold)

lemma epoch_field_frame:
  "map idx (epoch_field d k f t) = map idx t"
  "map JD (epoch_field d k f t) = map JD t"
  "map fieldID (epoch_field d k f t) = map fieldID t"
  "map part_key (epoch_field d k f t) = map part_key t"
  by (cases "filter (in_field k f) t";
      simp add: epoch_field_unfold epoch_field_Nil epoch_rows_frame del: epoch_rows.simps)+

lemma epoch_field_own:
  assumes "distinct (map idx t)"
  shows "filter (in_field k f) (epoch_field d k f t) = swept d (filter (in_field k f) t)"
proof (cases "filter (in_field k f) t")
  case Nil
  then show ?thesis
    by (simp add: epoch_field_Nil swept_def)
next
  case (Cons r0 rs)
  have dd: "distinct (map idx ([] @ filter (in_field k f) t))"
    using assms by (simp add: distinct_map_filter)
  have "filter (in_field k f) (epoch_field d k f t) =
      snd (snd (epoch_rows d (filter (in_field k f) t) (JD r0, 1, filter (in_field k f) t)))"
    by (simp only: epoch_field_unfold [OF Cons] epoch_rows_filter)
  also have "\<dots> = map2 (\<lambda>r v. r\<lparr>epochID := v\<rparr>) (filter (in_field k f) t)
       (sweep d (JD r0) 1 (map JD (filter (in_field k f) t)))"
    using epoch_rows_own [OF dd, of d "JD r0" 1] by simp
  finally show ?thesis using Cons by (simp add: swept_def)
qed

lemma epoch_field_other:
  assumes "distinct (map idx t)" and "(k', f') \<noteq> (k, f)"
  shows "filter (in_field k f) (epoch_field d k' f' t) = filter (in_field k f) t"
proof (cases "filter (in_field k' f') t")
  case Nil
  then show ?thesis by (simp add: epoch_field_Nil)
next
  case (Cons r0 rs)
  have "idx ` set (filter (in_field k' f') t) \<inter> idx ` set (filter (in_field k f) t) = {}"
    by (rule in_field_disjoint [OF assms])
  from epoch_rows_absent [OF this]
  show ?thesis
    by (simp only: epoch_field_unfold [OF Cons] epoch_rows_filter)
qed

lemma epoch_partition_frame:
  "map idx (epoch_partition d k t) = map idx t \<and> map JD (epoch_partition d k t) = map JD t \<and>
   map fieldID (epoch_partition d k t) = map fieldID t \<and>
   map part_key (epoch_partition d k t) = map part_key t"
proof -
  have "map idx (fold (epoch_field d k) fs t) = map idx t \<and>
        map JD (fold (epoch_field d k) fs t) = map JD t \<and>
        map fieldID (fold (epoch_field d k) fs t) = map fieldID t \<and>
        map part_key (fold (epoch_field d k) fs t) = map part_key t" for fs
    by (induction fs arbitrary: t) (simp_all add: epoch_field_frame)
  then show ?thesis by (simp add: epoch_partition_def)
qed

lemma swept_Nil: "swept d [] = []"
  by (simp add: swept_def)

lemma field_keys_distinct: "distinct (field_keys rows)"
  by (simp add: field_keys_def)

lemma field_keys_set: "set (field_keys rows) = fieldID ` set rows"
  by (simp add: field_keys_def)

lemma partition_keys_distinct: "distinct (partition_keys t)"
  by (simp add: partition_keys_def)

lemma partition_keys_set: "set (partition_keys t) = part_key ` set t"
  by (simp add: partition_keys_def)

lemma epoch_partition_own:
  assumes "distinct (map idx t)"
  shows "filter (in_field k f) (epoch_partition d k t) = swept d (filter (in_field k f) t)"
proof -
  let ?fs = "field_keys (filter (\<lambda>r. part_key r = k) t)"
  have "distinct (map idx (fold (epoch_field d k) ?fs t)) \<and>
      filter (in_field k f) (fold (epoch_field d k) ?fs t) =
      (if f \<in> set ?fs then swept d (filter (in_field k f) t) else filter (in_field k f) t)"
  proof (rule fold_select [where ok = "\<lambda>t. distinct (map idx t)" and S = "swept d"])
    show "distinct ?fs" by (rule field_keys_distinct)
    show "distinct (map idx t)" by (rule assms)
    show "\<And>t k'. distinct (map idx t) \<Longrightarrow> distinct (map idx (epoch_field d k k' t))"
      by (simp add: epoch_field_frame)
    show "\<And>t k'. distinct (map idx t) \<Longrightarrow> k' \<noteq> f \<Longrightarrow>
        filter (in_field k f) (epoch_field d k k' t) = filter (in_field k f) t"
      by (rule epoch_field_other) auto
    show "\<And>t. distinct (map idx t) \<Longrightarrow>
        filter (in_field k f) (epoch_field d k f t) = swept d (filter (in_field k f) t)"
      by (rule epoch_field_own)
  qed
  moreover have "filter (in_field k f) t = []" if "f \<notin> set ?fs"
    using that by (auto simp: field_keys_set filter_empty_conv in_field_def)
  ultimately show ?thesis
    by (auto simp: epoch_partition_def swept_Nil)
qed

lemma epoch_partition_other:
  assumes "distinct (map idx t)" and "k' \<noteq> k"
  shows "filter (in_field k f) (epoch_partition d k' t) = filter (in_field k f) t"
proof -
  have "distinct (map idx t) \<Longrightarrow>
      filter (in_field k f) (fold (epoch_field d k') fs t) = filter (in_field k f) t" for fs
  proof (induction fs arbitrary: t)
    case Nil
    then show ?case by simp
  next
    case (Cons a fs)
    have "distinct (map idx (epoch_field d k' a t))"
      using Cons.prems by (simp add: epoch_field_frame)
    from Cons.IH [OF this] epoch_field_other [OF Cons.prems, of k' a k f d] assms(2)
    show ?case by simp
  qed
  with assms(1) show ?thesis by (simp add: epoch_partition_def)
qed

lemma group_epochs_frame:
  "map idx (group_epochs d t) = map idx t \<and> map JD (group_epochs d t) = map JD t \<and>
   map fieldID (group_epochs d t) = map fieldID t \<and>
   map part_key (group_epochs d t) = map part_key t"
proof -
  have "map idx (fold (epoch_partition d) ks t) = map idx t \<and>
        map JD (fold (epoch_partition d) ks t) = map JD t \<and>
        map fieldID (fold (epoch_partition d) ks t) = map fieldID t \<and>
        map part_key (fold (epoch_partition d) ks t) = map part_key t" for ks
    by (induction ks arbitrary: t) (simp_all add: epoch_partition_frame)
  then show ?thesis by (simp add: group_epochs_def)
qed

lemma group_epochs_field:
  assumes "distinct (map idx t)"
  shows "filter (in_field k f) (group_epochs d t) = swept d (filter (in_field k f) t)"
proof -
  let ?ks = "partition_keys t"
  have "distinct (map idx (fold (epoch_partition d) ?ks t)) \<and>
      filter (in_field k f) (fold (epoch_partition d) ?ks t) =
      (if k \<in> set ?ks then swept d (filter (in_field k f) t) else filter (in_field k f) t)"
  proof (rule fold_select [where ok = "\<lambda>t. distinct (map idx t)" and S = "swept d"])
    show "distinct ?ks" by (rule partition_keys_distinct)
    show "distinct (map idx t)" by (rule assms)
    show "\<And>t k'. distinct (map idx t) \<Longrightarrow> distinct (map idx (epoch_partition d k' t))"
      by (simp add: epoch_partition_frame)
    show "\<And>t k'. distinct (map idx t) \<Longrightarrow> k' \<noteq> k \<Longrightarrow>
        filter (in_field k f) (epoch_partition d k' t) = filter (in_field k f) t"
      by (rule epoch_partition_other)
    show "\<And>t. distinct (map idx t) \<Longrightarrow>
        filter (in_field k f) (epoch_partition d k t) = swept d (filter (in_field k f) t)"
      by (rule epoch_partition_own)
  qed
  moreover have "filter (in_field k f) t = []" if "k \<notin> set ?ks"
    using that by (auto simp: partition_keys_set filter_empty_conv in_field_def)
  ultimately show ?thesis
    by (auto simp: group_epochs_def swept_Nil)
qed

subsection \<open>The epoch ids of a sweep over ascending timestamps\<close>

lemma first_in_epoch_simps [simp]:
  "first_in_epoch [] v = None"
  "first_in_epoch ((y, w) # ps) v = (if w = v then Some y else first_in_epoch ps v)"
  by (simp_all add: first_in_epoch_def)

lemma first_in_epoch_mem: "first_in_epoch ps v = Some y \<Longrightarrow> (y, v) \<in> set ps"
  by (induction ps) (auto split: if_splits)

lemma sweep_length [simp]: "length (sweep d ref e xs) = length xs"
  by (induction xs arbitrary: ref e) auto

lemma sweep_ge: "v \<in> set (sweep d ref e xs) \<Longrightarrow> e \<le> v"
  by (induction xs arbitrary: ref e) (fastforce split: if_splits)+

lemma zip_sweep_ge: "(x, v) \<in> set (zip xs (sweep d ref e xs)) \<Longrightarrow> e \<le> v"
  by (auto dest: set_zip_rightD sweep_ge)

lemma sweep_range: "\<exists>K\<ge>e. insert e (set (sweep d ref e xs)) = {e..K}"
proof (induction xs arbitrary: ref e)
  case Nil
  have "insert e (set (sweep d ref e [])) = {e..e}" by simp
  then show ?case by blast
next
  case (Cons x xs)
  show ?case
  proof (cases "x \<le> ref + d")
    case True
    with Cons.IH [of e ref] show ?thesis by simp
  next
    case False
    from Cons.IH [of "e + 1" x] obtain K where K: "e + 1 \<le> K"
      "insert (e + 1) (set (sweep d x (e + 1) xs)) = {e + 1..K}" by blast
    have a: "insert e {e + 1..K} = {e..K}"
      using K(1) by auto
    have "insert e (set (sweep d ref e (x # xs))) =
        insert e (insert (e + 1) (set (sweep d x (e + 1) xs)))"
      using False by simp
    also have "\<dots> = {e..K}"
      by (simp only: K(2) a)
    finally have "insert e (set (sweep d ref e (x # xs))) = {e..K}" .
    moreover have "e \<le> K" using K(1) by simp
    ultimately show ?thesis by blast
  qed
qed

lemma sweep_epochs_ok:
  "sorted (ref # xs) \<Longrightarrow> 0 \<le> d \<Longrightarrow> epochs_ok d ref e ((ref, e) # zip xs (sweep d ref e xs))"
proof (induction xs arbitrary: ref e)
  case Nil
  then show ?case by (simp add: epochs_ok_def)
next
  case (Cons x xs)
  show ?case
  proof (cases "x \<le> ref + d")
    case True
    let ?Z = "zip xs (sweep d ref e xs)"
    from Cons.prems have s: "sorted (ref # xs)" and rx: "ref \<le> x" by auto
    from Cons.IH [OF s Cons.prems(2), of e] have IH: "epochs_ok d ref e ((ref, e) # ?Z)" .
    have f: "first_in_epoch ((ref, e) # (x, e) # ?Z) v = first_in_epoch ((ref, e) # ?Z) v" for v
      by simp
    have 1: "\<forall>(a, v) \<in> set ((ref, e) # (x, e) # ?Z).
        \<exists>y. first_in_epoch ((ref, e) # ?Z) v = Some y \<and> y \<le> a \<and> a \<le> y + d"
    proof (clarify)
      fix a v assume m: "(a, v) \<in> set ((ref, e) # (x, e) # ?Z)"
      show "\<exists>y. first_in_epoch ((ref, e) # ?Z) v = Some y \<and> y \<le> a \<and> a \<le> y + d"
      proof (cases "(a, v) = (x, e)")
        case True
        with rx \<open>x \<le> ref + d\<close> show ?thesis by simp
      next
        case False
        with m have "(a, v) \<in> set ((ref, e) # ?Z)" by auto
        with IH show ?thesis unfolding epochs_ok_def by blast
      qed
    qed
    have 2: "\<forall>v y. first_in_epoch ((ref, e) # ?Z) v = Some y \<and> e < v \<longrightarrow> ref + d < y"
      using IH unfolding epochs_ok_def by (elim conjE)
    have 3: "\<forall>v v' y y'. first_in_epoch ((ref, e) # ?Z) v = Some y \<and>
        first_in_epoch ((ref, e) # ?Z) v' = Some y' \<and> v < v' \<longrightarrow> y < y'"
      using IH unfolding epochs_ok_def by (elim conjE)
    have "epochs_ok d ref e ((ref, e) # (x, e) # ?Z)"
      unfolding epochs_ok_def f by (intro conjI 1 2 3)
    with True show ?thesis by simp
  next
    case False
    let ?ps1 = "(x, e + 1) # zip xs (sweep d x (e + 1) xs)"
    from Cons.prems have s: "sorted (x # xs)" by auto
    from Cons.IH [OF s Cons.prems(2), of "e + 1"] have IH: "epochs_ok d x (e + 1) ?ps1" .
    have ge: "e + 1 \<le> v" if "(y, v) \<in> set ?ps1" for y v
      using that zip_sweep_ge [of y v xs d x "e + 1"] by auto
    have f: "first_in_epoch ((ref, e) # ?ps1) v = (if v = e then Some ref else first_in_epoch ?ps1 v)" for v
      by simp
    have ge': "e + 1 \<le> v" if "first_in_epoch ?ps1 v = Some y" for y v
      using first_in_epoch_mem [OF that] ge by blast
    have p2: "ref + d < y" if "first_in_epoch ?ps1 v = Some y" for v y
    proof (cases "v = e + 1")
      case True
      with that have "y = x" by simp
      with False show ?thesis by simp
    next
      case False
      with ge' [OF that] have "e + 1 < v" by simp
      with IH that have "x + d < y" unfolding epochs_ok_def by blast
      with \<open>\<not> x \<le> ref + d\<close> Cons.prems(2) show ?thesis by simp
    qed
    have 1: "\<forall>(a, v) \<in> set ((ref, e) # ?ps1).
        \<exists>y. first_in_epoch ((ref, e) # ?ps1) v = Some y \<and> y \<le> a \<and> a \<le> y + d"
    proof (clarify)
      fix a v assume m: "(a, v) \<in> set ((ref, e) # ?ps1)"
      show "\<exists>y. first_in_epoch ((ref, e) # ?ps1) v = Some y \<and> y \<le> a \<and> a \<le> y + d"
      proof (cases "(a, v) = (ref, e)")
        case True
        with Cons.prems(2) show ?thesis by simp
      next
        case False
        with m have m1: "(a, v) \<in> set ?ps1" by auto
        from ge [OF m1] have "v \<noteq> e" by simp
        moreover from IH m1 have "\<exists>y. first_in_epoch ?ps1 v = Some y \<and> y \<le> a \<and> a \<le> y + d"
          unfolding epochs_ok_def by blast
        ultimately show ?thesis unfolding f by simp
      qed
    qed
    have 2: "\<forall>v y. first_in_epoch ((ref, e) # ?ps1) v = Some y \<and> e < v \<longrightarrow> ref + d < y"
    proof (intro allI impI, elim conjE)
      fix v y
      assume a: "first_in_epoch ((ref, e) # ?ps1) v = Some y" and lt: "e < v"
      then have "first_in_epoch ?ps1 v = Some y" unfolding f by simp
      from p2 [OF this] show "ref + d < y" .
    qed
    have 3: "\<forall>v v' y y'. first_in_epoch ((ref, e) # ?ps1) v = Some y \<and>
        first_in_epoch ((ref, e) # ?ps1) v' = Some y' \<and> v < v' \<longrightarrow> y < y'"
    proof (intro allI impI, elim conjE)
      fix v v' y y'
      assume a: "first_in_epoch ((ref, e) # ?ps1) v = Some y"
        and b: "first_in_epoch ((ref, e) # ?ps1) v' = Some y'" and lt: "v < v'"
      show "y < y'"
      proof (cases "v = e")
        case True
        with a have y: "y = ref" by simp
        from True lt b have "first_in_epoch ?ps1 v' = Some y'" unfolding f by simp
        from p2 [OF this] y Cons.prems(2) show ?thesis by simp
      next
        case False
        with a have a1: "first_in_epoch ?ps1 v = Some y" unfolding f by simp
        from ge' [OF a1] lt have "v' \<noteq> e" by simp
        with b have b1: "first_in_epoch ?ps1 v' = Some y'" unfolding f by simp
        from IH a1 b1 lt show ?thesis unfolding epochs_ok_def by blast
      qed
    qed
    have "epochs_ok d ref e ((ref, e) # ?ps1)"
      unfolding epochs_ok_def by (intro conjI 1 2 3)
    with False show ?thesis by simp
  qed
qed

subsection \<open>What the table keeps through \<^verbatim>\<open>table_obs\<close>\<close>

lemma set_field_frame:
  "map idx (set_field i f a b t) = map idx t"
  "map JD (set_field i f a b t) = map JD t"
  "map part_key (set_field i f a b t) = map part_key t"
  "map (\<lambda>r. (RA r, Dec r)) (set_field i f a b t) = map (\<lambda>r. (RA r, Dec r)) t"
  by (simp_all add: set_field_def part_key_def)

lemma assign_rows_frame:
  "map idx (snd (assign_rows sep radius k rows (n, t))) = map idx t \<and>
   map JD (snd (assign_rows sep radius k rows (n, t))) = map JD t \<and>
   map part_key (snd (assign_rows sep radius k rows (n, t))) = map part_key t \<and>
   map (\<lambda>r. (RA r, Dec r)) (snd (assign_rows sep radius k rows (n, t))) = map (\<lambda>r. (RA r, Dec r)) t"
proof (induction rows arbitrary: n t)
  case Nil
  then show ?case by simp
next
  case (Cons data rest)
  show ?case
    by (simp add: Cons.IH set_field_frame split: prod.splits)
qed

lemma group_partition_frame:
  "map idx (group_partition sep radius k t) = map idx t \<and>
   map JD (group_partition sep radius k t) = map JD t \<and>
   map part_key (group_partition sep radius k t) = map part_key t \<and>
   map (\<lambda>r. (RA r, Dec r)) (group_partition sep radius k t) = map (\<lambda>r. (RA r, Dec r)) t"
  by (simp add: group_partition_def assign_rows_frame set_field_frame split: list.splits)

lemma group_fields_frame:
  "map idx (group_fields sep radius t) = map idx t \<and>
   map JD (group_fields sep radius t) = map JD t \<and>
   map part_key (group_fields sep radius t) = map part_key t \<and>
   map (\<lambda>r. (RA r, Dec r)) (group_fields sep radius t) = map (\<lambda>r. (RA r, Dec r)) t"
proof -
  have "map idx (fold (group_partition sep radius) ks t) = map idx t \<and>
   map JD (fold (group_partition sep radius) ks t) = map JD t \<and>
   map part_key (fold (group_partition sep radius) ks t) = map part_key t \<and>
   map (\<lambda>r. (RA r, Dec r)) (fold (group_partition sep radius) ks t) = map (\<lambda>r. (RA r, Dec r)) t" for ks
    by (induction ks arbitrary: t) (simp_all add: group_partition_frame)
  then show ?thesis by (simp add: group_fields_def)
qed

lemma read_images_rows:
  "read_images files hr n = Inr rows \<Longrightarrow>
     map idx rows = [n..<n + length files] \<and> (\<forall>r \<in> set rows. fieldID r = 0)"
proof (induction files arbitrary: hr n rows)
  case Nil
  then show ?case by simp
next
  case (Cons a files)
  obtain ima hdr where a: "a = (ima, hdr)" by (cases a)
  from Cons.prems a obtain h rows' r0 where
    r: "read_images files (Some h) (Suc n) = Inr rows'" and rows: "rows = r0 # rows'"
    and r0: "idx r0 = n" "fieldID r0 = 0"
    by (auto split: option.splits sum.splits)
  from Cons.IH [OF r] have IH: "map idx rows' = [Suc n..<Suc n + length files]"
    "\<forall>r \<in> set rows'. fieldID r = 0" by blast+
  have "[n..<n + length (a # files)] = n # [Suc n..<Suc n + length files]"
    using upt_conv_Cons [of n "Suc (n + length files)"] by simp
  with IH rows r0 show ?case by simp
qed

lemma table_obs_shape:
  assumes "table_obs sep files radius deltaT = Inr T"
  obtains t where "T = group_epochs deltaT (group_fields sep radius t)"
    and "distinct (map idx t)" and "sorted (map JD t)" and "\<forall>r \<in> set t. fieldID r = 0"
proof -
  from assms obtain rows where r: "read_images files None 0 = Inr rows"
    and T: "T = group_epochs deltaT (group_fields sep radius (sort_key JD rows))"
    by (auto simp: table_obs_def split: sum.splits)
  from read_images_rows [OF r] have "distinct (map idx rows)" and z: "\<forall>r \<in> set rows. fieldID r = 0"
    by simp_all
  then have d: "distinct (map idx (sort_key JD rows))"
    by (metis distinct_map distinct_sort set_sort)
  have s: "sorted (map JD (sort_key JD rows))" by simp
  from z have "\<forall>r \<in> set (sort_key JD rows). fieldID r = 0" by simp
  with T d s that show ?thesis by blast
qed

section \<open>Epochs\<close>

lemma map2_pairs:
  "length vs = length rs \<Longrightarrow>
     map (\<lambda>r. (JD r, epochID r)) (map2 (\<lambda>r v. r\<lparr>epochID := v\<rparr>) rs vs) = zip (map JD rs) vs"
proof (induction rs arbitrary: vs)
  case Nil
  then show ?case by simp
next
  case (Cons r rs)
  then show ?case by (cases vs) auto
qed

lemma epoch_reference_pairs:
  "epoch_reference rows e = first_in_epoch (map (\<lambda>r. (JD r, epochID r)) rows) e"
  by (induction rows) (auto simp: epoch_reference_def first_in_epoch_def)

lemma swept_pairs:
  assumes "0 \<le> d"
  shows "map (\<lambda>r. (JD r, epochID r)) (swept d (r0 # rs)) =
     (JD r0, 1) # zip (map JD rs) (sweep d (JD r0) 1 (map JD rs))"
proof -
  have "swept d (r0 # rs) =
      map2 (\<lambda>r v. r\<lparr>epochID := v\<rparr>) (r0 # rs) (sweep d (JD r0) 1 (map JD (r0 # rs)))"
    by (simp add: swept_def)
  then have "map (\<lambda>r. (JD r, epochID r)) (swept d (r0 # rs)) =
      zip (map JD (r0 # rs)) (sweep d (JD r0) 1 (map JD (r0 # rs)))"
    by (simp only: map2_pairs sweep_length length_map)
  with assms show ?thesis by simp
qed

lemma swept_props:
  assumes s: "sorted (map JD rs0)" and d: "0 \<le> d" and ne: "rs0 \<noteq> []"
  shows "(\<exists>K\<ge>1. epochID ` set (swept d rs0) = {1..K}) \<and>
    (\<forall>r \<in> set (swept d rs0). \<exists>ref. epoch_reference (swept d rs0) (epochID r) = Some ref \<and>
        ref \<le> JD r \<and> JD r \<le> ref + d) \<and>
    (\<forall>e e' ref ref'. epoch_reference (swept d rs0) e = Some ref \<and>
        epoch_reference (swept d rs0) e' = Some ref' \<and> e < e' \<longrightarrow> ref < ref')"
proof -
  from ne obtain r0 rs where rs0: "rs0 = r0 # rs" by (cases rs0) auto
  let ?rows = "swept d rs0"
  let ?js = "map JD rs"
  let ?ps = "(JD r0, 1) # zip ?js (sweep d (JD r0) 1 ?js)"
  have ps: "map (\<lambda>r. (JD r, epochID r)) ?rows = ?ps"
    unfolding rs0 by (rule swept_pairs [OF d])
  from s rs0 have "sorted (JD r0 # ?js)" by simp
  from sweep_epochs_ok [OF this d, of 1] have ok: "epochs_ok d (JD r0) 1 ?ps" .
  have ref: "epoch_reference ?rows e = first_in_epoch ?ps e" for e
    by (simp only: epoch_reference_pairs ps)
  have "epochID ` set ?rows = snd ` set (map (\<lambda>r. (JD r, epochID r)) ?rows)"
    by (simp add: image_image)
  also have "\<dots> = snd ` set ?ps" by (simp only: ps)
  also have "\<dots> = insert 1 (snd ` set (zip ?js (sweep d (JD r0) 1 ?js)))"
    by simp
  also have "snd ` set (zip ?js (sweep d (JD r0) 1 ?js)) = set (sweep d (JD r0) 1 ?js)"
    using map_snd_zip [of ?js "sweep d (JD r0) 1 ?js"]
      set_map [of snd "zip ?js (sweep d (JD r0) 1 ?js)"] by simp
  finally have ids: "epochID ` set ?rows = insert 1 (set (sweep d (JD r0) 1 ?js))" .
  from sweep_range [of 1 d "JD r0" ?js] ids have a: "\<exists>K\<ge>1. epochID ` set ?rows = {1..K}"
    by simp
  have b: "\<forall>r \<in> set ?rows. \<exists>ref. epoch_reference ?rows (epochID r) = Some ref \<and>
        ref \<le> JD r \<and> JD r \<le> ref + d"
  proof
    fix r assume "r \<in> set ?rows"
    then have "(JD r, epochID r) \<in> set (map (\<lambda>r. (JD r, epochID r)) ?rows)" by force
    then have "(JD r, epochID r) \<in> set ?ps" by (simp only: ps)
    with ok have "\<exists>y. first_in_epoch ?ps (epochID r) = Some y \<and> y \<le> JD r \<and> JD r \<le> y + d"
      unfolding epochs_ok_def by blast
    then show "\<exists>ref. epoch_reference ?rows (epochID r) = Some ref \<and> ref \<le> JD r \<and> JD r \<le> ref + d"
      by (simp only: ref)
  qed
  have c: "\<forall>e e' ref ref'. epoch_reference ?rows e = Some ref \<and>
        epoch_reference ?rows e' = Some ref' \<and> e < e' \<longrightarrow> ref < ref'"
    unfolding ref using ok unfolding epochs_ok_def by (elim conjE)
  from a b c show ?thesis by (intro conjI)
qed

text \<open>
  Claim C5. In the table that \<^verbatim>\<open>table_obs\<close> returns for \<open>deltaT \<ge> 0\<close>, take the rows of
  any field (field \<open>f\<close> of partition \<open>k\<close>) that has rows. Their epoch ids are exactly
  \<open>1..K\<close> for some \<open>K \<ge> 1\<close>; the timestamp of every row lies between the reference of its
  epoch (the timestamp of the first row of that epoch) and the reference plus \<open>deltaT\<close>;
  and the references increase strictly with the epoch id.
\<close>

theorem table_obs_epochs:
  assumes run: "table_obs sep filenames radius deltaT = Inr T"
    and d: "0 \<le> deltaT"
    and ne: "filter (in_field k f) T \<noteq> []"
  shows "(\<exists>K\<ge>1. epochID ` set (filter (in_field k f) T) = {1..K}) \<and>
    (\<forall>r \<in> set (filter (in_field k f) T).
       \<exists>ref. epoch_reference (filter (in_field k f) T) (epochID r) = Some ref \<and>
          ref \<le> JD r \<and> JD r \<le> ref + deltaT) \<and>
    (\<forall>e e' ref ref'. epoch_reference (filter (in_field k f) T) e = Some ref \<and>
        epoch_reference (filter (in_field k f) T) e' = Some ref' \<and> e < e' \<longrightarrow> ref < ref')"
proof -
  from run obtain t where T: "T = group_epochs deltaT (group_fields sep radius t)"
    and dt: "distinct (map idx t)" and st: "sorted (map JD t)"
    by (rule table_obs_shape)
  let ?t1 = "group_fields sep radius t"
  have d1: "distinct (map idx ?t1)" and s1: "sorted (map JD ?t1)"
    using dt st by (simp_all add: group_fields_frame)
  have rows: "filter (in_field k f) T = swept deltaT (filter (in_field k f) ?t1)"
    unfolding T by (rule group_epochs_field [OF d1])
  have s: "sorted (map JD (filter (in_field k f) ?t1))"
    using s1 by (simp add: sorted_filter)
  have n: "filter (in_field k f) ?t1 \<noteq> []"
    using ne unfolding rows by (auto simp: swept_def)
  show ?thesis
    unfolding rows by (rule swept_props [OF s d n])
qed

text \<open>
  Four images of one partition, one hour allowed: field 1 has the rows a, c and d with
  the timestamps 2400, 2401 and 2448 and the epochs 1, 1 and 2.
\<close>

theorem table_obs_epochs_witness:
  "table_obs ra_sep
     [(''a.fits'', ex_header (Some 100) 0 ''CAM''),
      (''b.fits'', ex_header (Some (100 + 1 / 48)) 10 ''CAM''),
      (''c.fits'', ex_header (Some (100 + 1 / 24)) (1 / 100) ''CAM''),
      (''d.fits'', ex_header (Some 102) 0 ''CAM'')] 1 1 =
   Inr [ex_row 0 ''a.fits'' ''CAM'' 0 2400 1 1 0,
        ex_row 1 ''b.fits'' ''CAM'' 10 (4801 / 2) 2 1 10,
        ex_row 2 ''c.fits'' ''CAM'' (1 / 100) 2401 1 1 10,
        ex_row 3 ''d.fits'' ''CAM'' 0 2448 1 2 10] \<and>
   (\<exists>K\<ge>1. epochID ` set (filter (in_field (''TEL'', ''CAM'', ''g'') 1)
       [ex_row 0 ''a.fits'' ''CAM'' 0 2400 1 1 0,
        ex_row 1 ''b.fits'' ''CAM'' 10 (4801 / 2) 2 1 10,
        ex_row 2 ''c.fits'' ''CAM'' (1 / 100) 2401 1 1 10,
        ex_row 3 ''d.fits'' ''CAM'' 0 2448 1 2 10]) = {1..K}) \<and>
   (\<exists>ref. epoch_reference (filter (in_field (''TEL'', ''CAM'', ''g'') 1)
       [ex_row 0 ''a.fits'' ''CAM'' 0 2400 1 1 0,
        ex_row 1 ''b.fits'' ''CAM'' 10 (4801 / 2) 2 1 10,
        ex_row 2 ''c.fits'' ''CAM'' (1 / 100) 2401 1 1 10,
        ex_row 3 ''d.fits'' ''CAM'' 0 2448 1 2 10])
       (epochID (ex_row 2 ''c.fits'' ''CAM'' (1 / 100) 2401 1 1 10)) = Some ref \<and>
      ref \<le> JD (ex_row 2 ''c.fits'' ''CAM'' (1 / 100) 2401 1 1 10) \<and>
      JD (ex_row 2 ''c.fits'' ''CAM'' (1 / 100) 2401 1 1 10) \<le> ref + 1)"
proof -
  let ?T = "[ex_row 0 ''a.fits'' ''CAM'' 0 2400 1 1 0,
        ex_row 1 ''b.fits'' ''CAM'' 10 (4801 / 2) 2 1 10,
        ex_row 2 ''c.fits'' ''CAM'' (1 / 100) 2401 1 1 10,
        ex_row 3 ''d.fits'' ''CAM'' 0 2448 1 2 10]"
  have run: "table_obs ra_sep
     [(''a.fits'', ex_header (Some 100) 0 ''CAM''),
      (''b.fits'', ex_header (Some (100 + 1 / 48)) 10 ''CAM''),
      (''c.fits'', ex_header (Some (100 + 1 / 24)) (1 / 100) ''CAM''),
      (''d.fits'', ex_header (Some 102) 0 ''CAM'')] 1 1 = Inr ?T"
    by code_simp
  have d: "(0::real) \<le> 1" by simp
  have ne: "filter (in_field (''TEL'', ''CAM'', ''g'') 1) ?T \<noteq> []"
    by code_simp
  have c: "ex_row 2 ''c.fits'' ''CAM'' (1 / 100) 2401 1 1 10
      \<in> set (filter (in_field (''TEL'', ''CAM'', ''g'') 1) ?T)"
    by code_simp
  from table_obs_epochs [OF run d ne] c run show ?thesis by blast
qed

section \<open>Fields\<close>

subsection \<open>The clusterer works inside one partition\<close>

lemma set_field_filter:
  "filter (\<lambda>r. part_key r = k) (set_field i f a b t) =
     set_field i f a b (filter (\<lambda>r. part_key r = k) t)"
  by (induction t) (auto simp: set_field_def part_key_def)

lemma set_field_absent: "i \<notin> idx ` set t \<Longrightarrow> set_field i f a b t = t"
  by (induction t) (auto simp: set_field_def)

lemma set_field_at:
  assumes "distinct (map idx (pre @ r # post))"
  shows "set_field (idx r) f a b (pre @ r # post) =
     pre @ r\<lparr>fieldID := f, RA_ref := a, Dec_ref := b\<rparr> # post"
proof -
  from assms have "idx r \<notin> idx ` set pre" "idx r \<notin> idx ` set post" by auto
  then have "set_field (idx r) f a b pre = pre" "set_field (idx r) f a b post = post"
    by (simp_all add: set_field_absent)
  then show ?thesis by (simp add: set_field_def)
qed

lemma closest_field_cong:
  assumes "\<And>key. filter (\<lambda>r. fieldID r = key \<and> m r) t = filter (\<lambda>r. fieldID r = key \<and> m r) t'"
  shows "closest_field sep radius t m c keys st = closest_field sep radius t' m c keys st"
proof (induction keys arbitrary: st)
  case Nil
  then show ?case by simp
next
  case (Cons key keys)
  obtain sm fr ra dec where st: "st = (sm, fr, ra, dec)" by (cases st)
  show ?case
    unfolding st by (simp add: assms Cons.IH split: list.splits)
qed

lemma closest_field_local:
  "closest_field sep radius t (\<lambda>r. fieldID r \<noteq> 0 \<and> part_key r = k) c keys st =
   closest_field sep radius (filter (\<lambda>r. part_key r = k) t)
     (\<lambda>r. fieldID r \<noteq> 0 \<and> part_key r = k) c keys st"
  by (rule closest_field_cong) (auto intro: filter_cong)

lemma mask2_local:
  "filter (\<lambda>r. fieldID r \<noteq> 0 \<and> part_key r = k) (filter (\<lambda>r. part_key r = k) t) =
   filter (\<lambda>r. fieldID r \<noteq> 0 \<and> part_key r = k) t"
  by (auto intro: filter_cong)

lemma assign_rows_local:
  "fst (assign_rows sep radius k rows (n, t)) =
     fst (assign_rows sep radius k rows (n, filter (\<lambda>r. part_key r = k) t)) \<and>
   filter (\<lambda>r. part_key r = k) (snd (assign_rows sep radius k rows (n, t))) =
     snd (assign_rows sep radius k rows (n, filter (\<lambda>r. part_key r = k) t))"
proof (induction rows arbitrary: n t)
  case Nil
  then show ?case by simp
next
  case (Cons data rest)
  show ?case
  proof (cases "fieldID data = 0")
    case False
    with Cons.IH [of n t] show ?thesis by simp
  next
    case True
    let ?m = "\<lambda>r. fieldID r \<noteq> 0 \<and> part_key r = k"
    let ?tk = "filter (\<lambda>r. part_key r = k) t"
    obtain sm fr ra dec where cf:
      "closest_field sep radius t ?m (RA data, Dec data) (field_keys (filter ?m t)) (100, - 1, None, None) =
         (sm, fr, ra, dec)"
      by (rule prod_cases4)
    have cf': "closest_field sep radius ?tk ?m (RA data, Dec data) (field_keys (filter ?m ?tk))
         (100, - 1, None, None) = (sm, fr, ra, dec)"
      using cf by (simp only: mask2_local closest_field_local [symmetric])
    show ?thesis
    proof (cases "fr \<noteq> - 1")
      case True
      have "assign_rows sep radius k (data # rest) (n, t) =
          assign_rows sep radius k rest (n, set_field (idx data) fr ra dec t)"
        using \<open>fieldID data = 0\<close> cf True by simp
      moreover have "assign_rows sep radius k (data # rest) (n, ?tk) =
          assign_rows sep radius k rest (n, set_field (idx data) fr ra dec ?tk)"
        using \<open>fieldID data = 0\<close> cf' True by simp
      ultimately show ?thesis
        using Cons.IH [of n "set_field (idx data) fr ra dec t"]
        by (simp only: set_field_filter)
    next
      case False
      have "assign_rows sep radius k (data # rest) (n, t) =
          assign_rows sep radius k rest
            (n + 1, set_field (idx data) (n + 1) (Some (RA data)) (Some (Dec data)) t)"
        using \<open>fieldID data = 0\<close> cf False by simp
      moreover have "assign_rows sep radius k (data # rest) (n, ?tk) =
          assign_rows sep radius k rest
            (n + 1, set_field (idx data) (n + 1) (Some (RA data)) (Some (Dec data)) ?tk)"
        using \<open>fieldID data = 0\<close> cf' False by simp
      ultimately show ?thesis
        using Cons.IH [of "n + 1" "set_field (idx data) (n + 1) (Some (RA data)) (Some (Dec data)) t"]
        by (simp only: set_field_filter)
    qed
  qed
qed

lemma assign_rows_other:
  assumes "idx ` set rows \<inter> idx ` set (filter (\<lambda>r. part_key r = k) t) = {}"
  shows "filter (\<lambda>r. part_key r = k) (snd (assign_rows sep radius k' rows (n, t))) =
     filter (\<lambda>r. part_key r = k) t"
  using assms
proof (induction rows arbitrary: n t)
  case Nil
  then show ?case by simp
next
  case (Cons data rest)
  have a: "filter (\<lambda>r. part_key r = k) (set_field (idx data) f a b t) = filter (\<lambda>r. part_key r = k) t"
    for f a b
    using Cons.prems by (simp add: set_field_filter set_field_absent)
  have r: "idx ` set rest \<inter> idx ` set (filter (\<lambda>r. part_key r = k) (set_field (idx data) f a b t)) = {}"
    for f a b
    using Cons.prems unfolding a by auto
  show ?case
  proof (cases "fieldID data = 0")
    case False
    have "idx ` set rest \<inter> idx ` set (filter (\<lambda>r. part_key r = k) t) = {}"
      using Cons.prems by auto
    from Cons.IH [OF this] False show ?thesis by simp
  next
    case True
    let ?m = "\<lambda>r. fieldID r \<noteq> 0 \<and> part_key r = k'"
    obtain sm fr ra dec where cf:
      "closest_field sep radius t ?m (RA data, Dec data) (field_keys (filter ?m t)) (100, - 1, None, None) =
         (sm, fr, ra, dec)"
      by (rule prod_cases4)
    show ?thesis
    proof (cases "fr \<noteq> - 1")
      case True
      have "assign_rows sep radius k' (data # rest) (n, t) =
          assign_rows sep radius k' rest (n, set_field (idx data) fr ra dec t)"
        using \<open>fieldID data = 0\<close> cf True by simp
      with Cons.IH [OF r [of fr ra dec], of n] a show ?thesis by simp
    next
      case False
      have "assign_rows sep radius k' (data # rest) (n, t) =
          assign_rows sep radius k' rest
            (n + 1, set_field (idx data) (n + 1) (Some (RA data)) (Some (Dec data)) t)"
        using \<open>fieldID data = 0\<close> cf False by simp
      with Cons.IH [OF r [of "n + 1" "Some (RA data)" "Some (Dec data)"], of "n + 1"] a show ?thesis by simp
    qed
  qed
qed

lemma group_partition_Nil:
  "filter (\<lambda>r. part_key r = k) t = [] \<Longrightarrow> group_partition sep radius k t = t"
  by (simp add: group_partition_def)

lemma group_partition_Cons:
  "filter (\<lambda>r. part_key r = k) t = r0 # rs \<Longrightarrow>
     group_partition sep radius k t =
       snd (assign_rows sep radius k
              (filter (\<lambda>r. part_key r = k) (set_field (idx r0) 1 (Some (RA r0)) (Some (Dec r0)) t))
              (1, set_field (idx r0) 1 (Some (RA r0)) (Some (Dec r0)) t))"
  by (simp add: group_partition_def del: assign_rows.simps)

lemma group_partition_own:
  "filter (\<lambda>r. part_key r = k) (group_partition sep radius k t) =
     group_partition sep radius k (filter (\<lambda>r. part_key r = k) t)"
proof (cases "filter (\<lambda>r. part_key r = k) t")
  case Nil
  then show ?thesis by (simp add: group_partition_Nil)
next
  case (Cons r0 rs)
  let ?P = "\<lambda>r. part_key r = k"
  let ?t1 = "set_field (idx r0) 1 (Some (RA r0)) (Some (Dec r0)) t"
  have "filter ?P (filter ?P t) = filter ?P t" by simp
  with Cons have ff: "filter ?P (filter ?P t) = r0 # rs" by (simp only:)
  have t1: "filter ?P ?t1 = set_field (idx r0) 1 (Some (RA r0)) (Some (Dec r0)) (filter ?P t)"
    by (rule set_field_filter)
  have "filter ?P (group_partition sep radius k t) =
      snd (assign_rows sep radius k (filter ?P ?t1) (1, filter ?P ?t1))"
    unfolding group_partition_Cons [OF Cons] using assign_rows_local by blast
  moreover have "group_partition sep radius k (filter ?P t) =
      snd (assign_rows sep radius k (filter ?P (filter ?P ?t1)) (1, filter ?P ?t1))"
    unfolding group_partition_Cons [OF ff] by (simp only: t1 [symmetric])
  ultimately show ?thesis by simp
qed

lemma part_disjoint:
  assumes "distinct (map idx t)" and "k' \<noteq> k"
  shows "idx ` set (filter (\<lambda>r. part_key r = k') t) \<inter> idx ` set (filter (\<lambda>r. part_key r = k) t) = {}"
proof -
  { fix r r' assume "r \<in> set t" "r' \<in> set t" "part_key r = k'" "part_key r' = k" "idx r = idx r'"
    with distinct_idx_eq [OF assms(1)] have "r = r'" by blast
    with \<open>part_key r = k'\<close> \<open>part_key r' = k\<close> assms(2) have False by simp }
  then show ?thesis by auto
qed

lemma group_partition_other:
  assumes "distinct (map idx t)" and "k' \<noteq> k"
  shows "filter (\<lambda>r. part_key r = k) (group_partition sep radius k' t) =
     filter (\<lambda>r. part_key r = k) t"
proof (cases "filter (\<lambda>r. part_key r = k') t")
  case Nil
  then show ?thesis by (simp add: group_partition_Nil)
next
  case (Cons r0 rs)
  let ?P = "\<lambda>r. part_key r = k"
  let ?P' = "\<lambda>r. part_key r = k'"
  let ?t1 = "set_field (idx r0) 1 (Some (RA r0)) (Some (Dec r0)) t"
  have dis: "idx ` set (filter ?P' t) \<inter> idx ` set (filter ?P t) = {}"
    by (rule part_disjoint [OF assms])
  have "r0 \<in> set (filter ?P' t)" using Cons by simp
  with dis have "idx r0 \<notin> idx ` set (filter ?P t)" by blast
  then have t1: "filter ?P ?t1 = filter ?P t"
    by (simp add: set_field_filter set_field_absent)
  have m: "map idx (filter ?P' ?t1) = map idx (filter ?P' t)"
    by (simp only: set_field_filter set_field_frame)
  have "idx ` set (filter ?P' ?t1) = idx ` set (filter ?P' t)"
    using arg_cong [OF m, of set] by (simp only: set_map)
  with dis t1 have "idx ` set (filter ?P' ?t1) \<inter> idx ` set (filter ?P ?t1) = {}"
    by simp
  from assign_rows_other [OF this] t1 show ?thesis
    unfolding group_partition_Cons [OF Cons] by simp
qed

lemma group_fields_partition:
  assumes "distinct (map idx t)"
  shows "filter (\<lambda>r. part_key r = k) (group_fields sep radius t) =
     group_partition sep radius k (filter (\<lambda>r. part_key r = k) t)"
proof -
  let ?ks = "partition_keys t"
  let ?P = "\<lambda>r. part_key r = k"
  have "distinct (map idx (fold (group_partition sep radius) ?ks t)) \<and>
      filter ?P (fold (group_partition sep radius) ?ks t) =
      (if k \<in> set ?ks then group_partition sep radius k (filter ?P t) else filter ?P t)"
  proof (rule fold_select [where ok = "\<lambda>t. distinct (map idx t)"
        and S = "group_partition sep radius k"])
    show "distinct ?ks" by (rule partition_keys_distinct)
    show "distinct (map idx t)" by (rule assms)
    show "\<And>t k'. distinct (map idx t) \<Longrightarrow> distinct (map idx (group_partition sep radius k' t))"
      by (simp add: group_partition_frame)
    show "\<And>t k'. distinct (map idx t) \<Longrightarrow> k' \<noteq> k \<Longrightarrow>
        filter ?P (group_partition sep radius k' t) = filter ?P t"
      by (rule group_partition_other)
    show "\<And>t. distinct (map idx t) \<Longrightarrow>
        filter ?P (group_partition sep radius k t) = group_partition sep radius k (filter ?P t)"
      by (rule group_partition_own)
  qed
  moreover have "filter ?P t = []" if "k \<notin> set ?ks"
    using that by (auto simp: partition_keys_set filter_empty_conv)
  ultimately show ?thesis
    by (auto simp: group_fields_def group_partition_Nil)
qed

text \<open>One partition on its own.\<close>

lemma group_partition_single:
  assumes p: "\<forall>r \<in> set (r0 # rest). part_key r = k"
    and d: "distinct (map idx (r0 # rest))"
    and z: "\<forall>r \<in> set (r0 # rest). fieldID r = 0"
  shows "group_partition sep radius k (r0 # rest) =
     snd (assign_rows sep radius k rest
            (1, [r0\<lparr>fieldID := 1, RA_ref := Some (RA r0), Dec_ref := Some (Dec r0)\<rparr>] @ rest))"
proof -
  let ?P = "\<lambda>r. part_key r = k"
  let ?r0 = "r0\<lparr>fieldID := 1, RA_ref := Some (RA r0), Dec_ref := Some (Dec r0)\<rparr>"
  have f: "filter ?P (r0 # rest) = r0 # rest" using p by simp
  have sf: "set_field (idx r0) 1 (Some (RA r0)) (Some (Dec r0)) (r0 # rest) = ?r0 # rest"
    using set_field_at [of "[]" r0 rest] d by simp
  have pk: "part_key ?r0 = k" using p by (simp add: part_key_def)
  have f1: "filter ?P (?r0 # rest) = ?r0 # rest" using p pk by simp
  have "group_partition sep radius k (r0 # rest) =
      snd (assign_rows sep radius k (?r0 # rest) (1, ?r0 # rest))"
    unfolding group_partition_Cons [OF f] sf f1 ..
  then show ?thesis by simp
qed

lemma assign_rows_step:
  assumes p: "\<forall>r \<in> set (dn @ data # rest). part_key r = k"
    and d: "distinct (map idx (dn @ data # rest))"
    and z: "fieldID data = 0" "\<forall>r \<in> set rest. fieldID r = 0"
    and nz: "\<forall>r \<in> set dn. fieldID r \<noteq> 0"
    and cf: "closest_field sep radius dn (\<lambda>r. fieldID r \<noteq> 0 \<and> part_key r = k) (RA data, Dec data)
         (field_keys dn) (100, - 1, None, None) = (sm, fr, ra, dec)"
  shows "assign_rows sep radius k (data # rest) (n, dn @ data # rest) =
     (if fr \<noteq> - 1
      then assign_rows sep radius k rest
             (n, (dn @ [data\<lparr>fieldID := fr, RA_ref := ra, Dec_ref := dec\<rparr>]) @ rest)
      else assign_rows sep radius k rest
             (n + 1, (dn @ [data\<lparr>fieldID := n + 1, RA_ref := Some (RA data),
                                  Dec_ref := Some (Dec data)\<rparr>]) @ rest))"
proof -
  let ?m = "\<lambda>r. fieldID r \<noteq> 0 \<and> part_key r = k"
  let ?t = "dn @ data # rest"
  have fm: "filter ?m ?t = dn"
    using p z nz by (auto simp: filter_empty_conv filter_id_conv)
  have fk: "filter (\<lambda>r. fieldID r = key \<and> ?m r) ?t = filter (\<lambda>r. fieldID r = key \<and> ?m r) dn" for key
    using p z nz by (auto simp: filter_empty_conv)
  have cf': "closest_field sep radius ?t ?m (RA data, Dec data) (field_keys (filter ?m ?t))
      (100, - 1, None, None) = (sm, fr, ra, dec)"
    unfolding fm using closest_field_cong [of ?m ?t dn, OF fk] cf by simp
  have sf: "set_field (idx data) f a b ?t = (dn @ [data\<lparr>fieldID := f, RA_ref := a, Dec_ref := b\<rparr>]) @ rest"
    for f a b
    using set_field_at [OF d] by simp
  show ?thesis
    using z(1) cf' by (simp add: sf del: append_assoc)
qed

subsection \<open>Radius zero\<close>

lemma closest_field_never:
  assumes "\<And>a b. \<not> sep a b < radius"
  shows "fst (snd (closest_field sep radius t m c keys (sm, fr, ra, dec))) = fr"
  by (induction keys arbitrary: sm ra dec) (simp_all add: assms split: list.splits)

lemma assign_rows_all_new:
  assumes never: "\<And>a b. \<not> sep a b < radius"
  shows "\<forall>r \<in> set (dn @ todo). part_key r = k \<Longrightarrow> distinct (map idx (dn @ todo)) \<Longrightarrow>
     \<forall>r \<in> set todo. fieldID r = 0 \<Longrightarrow> \<forall>r \<in> set dn. fieldID r \<noteq> 0 \<Longrightarrow> 0 \<le> n \<Longrightarrow>
     map fieldID (snd (assign_rows sep radius k todo (n, dn @ todo))) =
       map fieldID dn @ [n + 1 .. n + int (length todo)]"
proof (induction todo arbitrary: dn n)
  case Nil
  then show ?case by simp
next
  case (Cons data rest)
  let ?data = "data\<lparr>fieldID := n + 1, RA_ref := Some (RA data), Dec_ref := Some (Dec data)\<rparr>"
  obtain sm fr ra dec where cf:
    "closest_field sep radius dn (\<lambda>r. fieldID r \<noteq> 0 \<and> part_key r = k) (RA data, Dec data)
         (field_keys dn) (100, - 1, None, None) = (sm, fr, ra, dec)"
    by (rule prod_cases4)
  have "fst (snd (closest_field sep radius dn (\<lambda>r. fieldID r \<noteq> 0 \<and> part_key r = k)
      (RA data, Dec data) (field_keys dn) (100, - 1, None, None))) = - 1"
    by (rule closest_field_never) (rule never)
  with cf have fr: "fr = - 1" by simp
  from Cons.prems have z: "fieldID data = 0" "\<forall>r \<in> set rest. fieldID r = 0" by simp_all
  have step: "assign_rows sep radius k (data # rest) (n, dn @ data # rest) =
      assign_rows sep radius k rest (n + 1, (dn @ [?data]) @ rest)"
    using assign_rows_step [OF Cons.prems(1,2) z Cons.prems(4) cf, of n] fr by simp
  have p': "\<forall>r \<in> set ((dn @ [?data]) @ rest). part_key r = k"
    using Cons.prems(1) by (auto simp: part_key_def)
  have d': "distinct (map idx ((dn @ [?data]) @ rest))"
    using Cons.prems(2) by simp
  have nz': "\<forall>r \<in> set (dn @ [?data]). fieldID r \<noteq> 0"
    using Cons.prems(4,5) by auto
  have n': "0 \<le> n + 1" using Cons.prems(5) by simp
  from Cons.IH [OF p' d' z(2) nz' n']
  have "map fieldID (snd (assign_rows sep radius k rest (n + 1, (dn @ [?data]) @ rest))) =
      map fieldID (dn @ [?data]) @ [n + 1 + 1 .. n + 1 + int (length rest)]" .
  moreover have "[n + 1 .. n + int (length (data # rest))] =
      (n + 1) # [n + 1 + 1 .. n + 1 + int (length rest)]"
  proof -
    have j: "n + int (length (data # rest)) = n + 1 + int (length rest)" by simp
    have "n + 1 \<le> n + 1 + int (length rest)" by simp
    from upto_rec1 [OF this] show ?thesis unfolding j .
  qed
  ultimately show ?case
    unfolding step by (simp del: upto.simps)
qed

lemma group_partition_all_new:
  assumes never: "\<And>a b. \<not> sep a b < radius"
    and p: "\<forall>r \<in> set S. part_key r = k" and d: "distinct (map idx S)"
    and z: "\<forall>r \<in> set S. fieldID r = 0"
  shows "map fieldID (group_partition sep radius k S) = [1 .. int (length S)]"
proof (cases S)
  case Nil
  then show ?thesis by (simp add: group_partition_Nil)
next
  case (Cons r0 rest)
  let ?r0 = "r0\<lparr>fieldID := 1, RA_ref := Some (RA r0), Dec_ref := Some (Dec r0)\<rparr>"
  have 1: "\<forall>r \<in> set ([?r0] @ rest). part_key r = k"
    using p Cons by (auto simp: part_key_def)
  have 2: "distinct (map idx ([?r0] @ rest))" using d Cons by simp
  have 3: "\<forall>r \<in> set rest. fieldID r = 0" using z Cons by simp
  have 4: "\<forall>r \<in> set [?r0]. fieldID r \<noteq> 0" by simp
  have "map fieldID (snd (assign_rows sep radius k rest (1, [?r0] @ rest))) =
      map fieldID [?r0] @ [1 + 1 .. 1 + int (length rest)]"
    by (rule assign_rows_all_new [OF never 1 2 3 4]) simp
  moreover have "[1 .. int (length (r0 # rest))] = 1 # [1 + 1 .. 1 + int (length rest)]"
  proof -
    have j: "int (length (r0 # rest)) = 1 + int (length rest)" by simp
    have "(1::int) \<le> 1 + int (length rest)" by simp
    from upto_rec1 [OF this] show ?thesis unfolding j .
  qed
  moreover have "group_partition sep radius k (r0 # rest) =
      snd (assign_rows sep radius k rest (1, [?r0] @ rest))"
    using p d z unfolding Cons by (rule group_partition_single)
  ultimately show ?thesis
    unfolding Cons by (simp del: upto.simps)
qed

lemma map_fieldID_filter:
  "map fieldID (filter (\<lambda>r. part_key r = k) t) =
     map snd (filter (\<lambda>p. fst p = k) (map (\<lambda>r. (part_key r, fieldID r)) t))"
  by (induction t) auto

lemma map_pair_zip: "map (\<lambda>r. (f r, g r)) xs = zip (map f xs) (map g xs)"
  by (induction xs) auto

lemma group_epochs_fields:
  "map fieldID (filter (\<lambda>r. part_key r = k) (group_epochs d t)) =
     map fieldID (filter (\<lambda>r. part_key r = k) t)"
proof -
  have "map (\<lambda>r. (part_key r, fieldID r)) (group_epochs d t) = map (\<lambda>r. (part_key r, fieldID r)) t"
    by (simp only: map_pair_zip group_epochs_frame)
  then show ?thesis by (simp only: map_fieldID_filter)
qed

text \<open>
  Claim C7, as amended. With radius 0 and a separation that is never negative, no record
  joins an existing field, because the test \<^verbatim>\<open>sep < radius\<close> is strict: the records of a
  partition get the field ids 1, 2, ..., n in table order, and two records of one partition
  that are in the same field are the same record. Records with different coordinates are
  in different fields, and so are records with the same coordinates.
\<close>

theorem table_obs_radius_zero:
  assumes run: "table_obs sep filenames 0 deltaT = Inr T"
    and nonneg: "\<forall>a b. 0 \<le> sep a b"
  shows "map fieldID (filter (\<lambda>r. part_key r = k) T) =
           [1 .. int (length (filter (\<lambda>r. part_key r = k) T))] \<and>
         (\<forall>r \<in> set T. \<forall>r' \<in> set T. part_key r = part_key r' \<and> fieldID r = fieldID r' \<longrightarrow> r = r')"
proof -
  from run obtain t where T: "T = group_epochs deltaT (group_fields sep 0 t)"
    and dt: "distinct (map idx t)" and zt: "\<forall>r \<in> set t. fieldID r = 0"
    by (rule table_obs_shape)
  have never: "\<not> sep a b < 0" for a b
    using spec [OF spec [OF nonneg], of a b] by (simp only: not_less)
  have ids: "map fieldID (filter (\<lambda>r. part_key r = k) T) =
      [1 .. int (length (filter (\<lambda>r. part_key r = k) T))]" for k
  proof -
    let ?P = "\<lambda>r. part_key r = k"
    have "map fieldID (filter ?P T) = map fieldID (filter ?P (group_fields sep 0 t))"
      unfolding T by (rule group_epochs_fields)
    also have "\<dots> = map fieldID (group_partition sep 0 k (filter ?P t))"
      by (simp only: group_fields_partition [OF dt])
    also have "\<dots> = [1 .. int (length (filter ?P t))]"
    proof (rule group_partition_all_new [OF never])
      show "\<forall>r \<in> set (filter ?P t). part_key r = k" by simp
      show "distinct (map idx (filter ?P t))" using dt by (simp add: distinct_map_filter)
      show "\<forall>r \<in> set (filter ?P t). fieldID r = 0" using zt by simp
    qed
    finally have m: "map fieldID (filter ?P T) = [1 .. int (length (filter ?P t))]" .
    from arg_cong [OF m, of length] have "length (filter ?P T) = length (filter ?P t)"
      by simp
    with m show ?thesis by simp
  qed
  have alone: "r = r'" if "r \<in> set T" "r' \<in> set T" "part_key r = part_key r'" "fieldID r = fieldID r'"
    for r r'
  proof -
    let ?F = "filter (\<lambda>q. part_key q = part_key r) T"
    have "distinct (map fieldID ?F)"
      unfolding ids by simp
    then have "inj_on fieldID (set ?F)" by (simp add: distinct_map)
    moreover have "r \<in> set ?F" "r' \<in> set ?F" using that by simp_all
    ultimately show ?thesis using that(4) by (auto dest: inj_onD)
  qed
  from ids [of k] alone show ?thesis by blast
qed

text \<open>
  Claim C7 as stated fails: two images of one partition with the same coordinates, radius
  0; their separation 0 is not below 0 and they get the fields 1 and 2.
\<close>

theorem table_obs_radius_zero_counterexample:
  "table_obs ra_sep
     [(''a.fits'', ex_header (Some 100) 150 ''CAM''),
      (''b.fits'', ex_header (Some 101) 150 ''CAM'')] 0 1 =
   Inr [ex_row 0 ''a.fits'' ''CAM'' 150 2400 1 1 150,
        ex_row 1 ''b.fits'' ''CAM'' 150 2424 2 1 150]"
  by code_simp

text \<open>Three images of one partition, two of them at the same coordinates.\<close>

theorem table_obs_radius_zero_witness:
  "table_obs ra_sep
     [(''a.fits'', ex_header (Some 100) 150 ''CAM''),
      (''b.fits'', ex_header (Some 101) 150 ''CAM''),
      (''c.fits'', ex_header (Some 102) 10 ''CAM'')] 0 1 =
   Inr [ex_row 0 ''a.fits'' ''CAM'' 150 2400 1 1 150,
        ex_row 1 ''b.fits'' ''CAM'' 150 2424 2 1 150,
        ex_row 2 ''c.fits'' ''CAM'' 10 2448 3 1 10] \<and>
   map fieldID (filter (\<lambda>r. part_key r = (''TEL'', ''CAM'', ''g''))
     [ex_row 0 ''a.fits'' ''CAM'' 150 2400 1 1 150,
      ex_row 1 ''b.fits'' ''CAM'' 150 2424 2 1 150,
      ex_row 2 ''c.fits'' ''CAM'' 10 2448 3 1 10]) = [1, 2, 3]"
proof -
  let ?T = "[ex_row 0 ''a.fits'' ''CAM'' 150 2400 1 1 150,
        ex_row 1 ''b.fits'' ''CAM'' 150 2424 2 1 150,
        ex_row 2 ''c.fits'' ''CAM'' 10 2448 3 1 10]"
  have run: "table_obs ra_sep
     [(''a.fits'', ex_header (Some 100) 150 ''CAM''),
      (''b.fits'', ex_header (Some 101) 150 ''CAM''),
      (''c.fits'', ex_header (Some 102) 10 ''CAM'')] 0 1 = Inr ?T"
    by code_simp
  have nonneg: "\<forall>a b. 0 \<le> ra_sep a b" by (simp add: ra_sep_def)
  have len: "int (length (filter (\<lambda>r. part_key r = (''TEL'', ''CAM'', ''g'')) ?T)) = 3"
    by code_simp
  have up: "[1 .. 3] = [1, 2, 3 :: int]" by code_simp
  from table_obs_radius_zero [OF run nonneg, of "(''TEL'', ''CAM'', ''g'')"]
  have "map fieldID (filter (\<lambda>r. part_key r = (''TEL'', ''CAM'', ''g'')) ?T) = [1, 2, 3]"
    unfolding len up by blast
  with run show ?thesis by blast
qed

subsection \<open>The hundred degrees\<close>

lemma find_append_if:
  "find P (xs @ ys) = (case find P xs of None \<Rightarrow> find P ys | Some x \<Rightarrow> Some x)"
  by (induction xs) auto

lemma find_filter_head: "filter P xs = x # ys \<Longrightarrow> find P xs = Some x"
  by (induction xs) (auto split: if_splits)

lemma find_in_set: "x \<in> set xs \<Longrightarrow> P x \<Longrightarrow> \<exists>y. find P xs = Some y"
  by (induction xs) auto

lemma find_none: "\<forall>x \<in> set xs. \<not> P x \<Longrightarrow> find P xs = None"
  by (induction xs) auto

lemma find_filter_conj: "find (\<lambda>q. A q \<and> B q) xs = find B (filter A xs)"
  by (induction xs) auto

lemma closest_field_bound:
  assumes "set keys \<subseteq> K"
  shows "sm \<le> 100 \<Longrightarrow>
     (fr \<noteq> - 1 \<longrightarrow> fr \<in> K \<and> (\<exists>r0 rs. filter (\<lambda>r. fieldID r = fr \<and> m r) t = r0 # rs \<and>
        sep c (RA r0, Dec r0) < radius \<and> sep c (RA r0, Dec r0) < 100)) \<Longrightarrow>
     closest_field sep radius t m c keys (sm, fr, ra, dec) = (sm', fr', ra', dec') \<Longrightarrow>
     fr' \<noteq> - 1 \<longrightarrow> fr' \<in> K \<and> (\<exists>r0 rs. filter (\<lambda>r. fieldID r = fr' \<and> m r) t = r0 # rs \<and>
        sep c (RA r0, Dec r0) < radius \<and> sep c (RA r0, Dec r0) < 100)"
  using assms
proof (induction keys arbitrary: sm fr ra dec)
  case Nil
  then show ?case by simp
next
  case (Cons key keys)
  note IH = Cons.IH and prems = Cons.prems
  from prems(4) have kK: "key \<in> K" and ks: "set keys \<subseteq> K" by auto
  show ?case
  proof (cases "filter (\<lambda>r. fieldID r = key \<and> m r) t")
    case Nil
    with prems(3) have "closest_field sep radius t m c keys (sm, fr, ra, dec) = (sm', fr', ra', dec')"
      by simp
    from IH [OF prems(1,2) this ks] show ?thesis .
  next
    case (Cons r0 rs)
    let ?s = "sep c (RA r0, Dec r0)"
    show ?thesis
    proof (cases "?s < radius \<and> ?s < sm")
      case True
      with Cons prems(3) have run: "closest_field sep radius t m c keys
          (?s, key, Some (RA r0), Some (Dec r0)) = (sm', fr', ra', dec')"
        by simp
      from True prems(1) have s100: "?s \<le> 100" "?s < 100" by simp_all
      have sel: "key \<noteq> - 1 \<longrightarrow> key \<in> K \<and> (\<exists>r0 rs. filter (\<lambda>r. fieldID r = key \<and> m r) t = r0 # rs \<and>
          sep c (RA r0, Dec r0) < radius \<and> sep c (RA r0, Dec r0) < 100)"
        using kK Cons True s100 by blast
      from IH [OF s100(1) sel run ks] show ?thesis .
    next
      case False
      with Cons prems(3) have run: "closest_field sep radius t m c keys
          (sm, fr, Some (RA r0), Some (Dec r0)) = (sm', fr', ra', dec')"
        by auto
      from IH [OF prems(1,2) run ks] show ?thesis .
    qed
  qed
qed

lemma threshold_ok_snoc_old:
  assumes ok: "threshold_ok sep radius dn"
    and f: "find (\<lambda>q. fieldID q = fieldID x) dn = Some r0"
    and s: "sep (RA x, Dec x) (RA r0, Dec r0) < 100" "sep (RA x, Dec x) (RA r0, Dec r0) < radius"
  shows "threshold_ok sep radius (dn @ [x])"
  unfolding threshold_ok_def
proof (intro ballI allI impI, elim conjE)
  fix r q
  assume r: "r \<in> set (dn @ [x])" and fq: "find (\<lambda>q. fieldID q = fieldID r) (dn @ [x]) = Some q"
    and ne: "idx r \<noteq> idx q"
  show "sep (RA r, Dec r) (RA q, Dec q) < 100 \<and> sep (RA r, Dec r) (RA q, Dec q) < radius"
  proof (cases "r \<in> set dn")
    case True
    from find_in_set [OF True, of "\<lambda>q. fieldID q = fieldID r"] obtain y where
      y: "find (\<lambda>q. fieldID q = fieldID r) dn = Some y" by auto
    with fq have "q = y" by (simp add: find_append_if)
    with ok True y ne show ?thesis unfolding threshold_ok_def by blast
  next
    case False
    with r have rx: "r = x" by simp
    with fq f have "q = r0" by (simp add: find_append_if)
    with rx s show ?thesis by simp
  qed
qed

lemma threshold_ok_snoc_new:
  assumes ok: "threshold_ok sep radius dn"
    and f: "\<forall>r \<in> set dn. fieldID r \<noteq> fieldID x"
  shows "threshold_ok sep radius (dn @ [x])"
  unfolding threshold_ok_def
proof (intro ballI allI impI, elim conjE)
  fix r q
  assume r: "r \<in> set (dn @ [x])" and fq: "find (\<lambda>q. fieldID q = fieldID r) (dn @ [x]) = Some q"
    and ne: "idx r \<noteq> idx q"
  show "sep (RA r, Dec r) (RA q, Dec q) < 100 \<and> sep (RA r, Dec r) (RA q, Dec q) < radius"
  proof (cases "r \<in> set dn")
    case True
    from find_in_set [OF True, of "\<lambda>q. fieldID q = fieldID r"] obtain y where
      y: "find (\<lambda>q. fieldID q = fieldID r) dn = Some y" by auto
    with fq have "q = y" by (simp add: find_append_if)
    with ok True y ne show ?thesis unfolding threshold_ok_def by blast
  next
    case False
    with r have rx: "r = x" by simp
    from f have "find (\<lambda>q. fieldID q = fieldID x) dn = None"
      by (intro find_none) auto
    with fq rx have "q = x" by (simp add: find_append_if)
    with rx ne show ?thesis by simp
  qed
qed

lemma assign_rows_threshold:
  "\<forall>r \<in> set (dn @ todo). part_key r = k \<Longrightarrow> distinct (map idx (dn @ todo)) \<Longrightarrow>
   \<forall>r \<in> set todo. fieldID r = 0 \<Longrightarrow> \<forall>r \<in> set dn. 1 \<le> fieldID r \<and> fieldID r \<le> n \<Longrightarrow>
   threshold_ok sep radius dn \<Longrightarrow> 0 \<le> n \<Longrightarrow>
   threshold_ok sep radius (snd (assign_rows sep radius k todo (n, dn @ todo)))"
proof (induction todo arbitrary: dn n)
  case Nil
  then show ?case by simp
next
  case (Cons data rest)
  note IH = Cons.IH and prems = Cons.prems
  let ?m = "\<lambda>r. fieldID r \<noteq> 0 \<and> part_key r = k"
  obtain sm fr ra dec where cf:
    "closest_field sep radius dn ?m (RA data, Dec data) (field_keys dn) (100, - 1, None, None) =
       (sm, fr, ra, dec)"
    by (rule prod_cases4)
  from prems have z: "fieldID data = 0" "\<forall>r \<in> set rest. fieldID r = 0" by simp_all
  from prems(4) have nz: "\<forall>r \<in> set dn. fieldID r \<noteq> 0" by auto
  note step = assign_rows_step [OF prems(1,2) z nz cf, of n]
  show ?case
  proof (cases "fr \<noteq> - 1")
    case True
    let ?data = "data\<lparr>fieldID := fr, RA_ref := ra, Dec_ref := dec\<rparr>"
    have "fr \<noteq> - 1 \<longrightarrow> fr \<in> set (field_keys dn) \<and>
        (\<exists>r0 rs. filter (\<lambda>r. fieldID r = fr \<and> ?m r) dn = r0 # rs \<and>
           sep (RA data, Dec data) (RA r0, Dec r0) < radius \<and>
           sep (RA data, Dec data) (RA r0, Dec r0) < 100)"
      by (rule closest_field_bound [OF subset_refl _ _ cf]) simp_all
    with True obtain r0 rs where frk: "fr \<in> set (field_keys dn)"
      and fl: "filter (\<lambda>r. fieldID r = fr \<and> ?m r) dn = r0 # rs"
      and s: "sep (RA data, Dec data) (RA r0, Dec r0) < radius"
         "sep (RA data, Dec data) (RA r0, Dec r0) < 100"
      by blast
    have "filter (\<lambda>r. fieldID r = fr \<and> ?m r) dn = filter (\<lambda>r. fieldID r = fr) dn"
      using prems(1) nz by (intro filter_cong) auto
    with fl have "find (\<lambda>q. fieldID q = fr) dn = Some r0"
      by (simp add: find_filter_head)
    then have ok': "threshold_ok sep radius (dn @ [?data])"
      using s by (intro threshold_ok_snoc_old [OF prems(5), of _ r0]) simp_all
    from frk prems(4) have rng: "\<forall>r \<in> set (dn @ [?data]). 1 \<le> fieldID r \<and> fieldID r \<le> n"
      by (auto simp: field_keys_set)
    have p': "\<forall>r \<in> set ((dn @ [?data]) @ rest). part_key r = k"
      using prems(1) by (auto simp: part_key_def)
    have d': "distinct (map idx ((dn @ [?data]) @ rest))"
      using prems(2) by simp
    from IH [OF p' d' z(2) rng ok' prems(6)] True show ?thesis
      unfolding step by simp
  next
    case False
    let ?data = "data\<lparr>fieldID := n + 1, RA_ref := Some (RA data), Dec_ref := Some (Dec data)\<rparr>"
    have "\<forall>r \<in> set dn. fieldID r \<noteq> fieldID ?data"
      using prems(4) by auto
    from threshold_ok_snoc_new [OF prems(5) this]
    have ok': "threshold_ok sep radius (dn @ [?data])" .
    have rng: "\<forall>r \<in> set (dn @ [?data]). 1 \<le> fieldID r \<and> fieldID r \<le> n + 1"
    proof
      fix r assume "r \<in> set (dn @ [?data])"
      then consider "r \<in> set dn" | "r = ?data" by auto
      then show "1 \<le> fieldID r \<and> fieldID r \<le> n + 1"
      proof cases
        case 1
        with prems(4) show ?thesis by force
      next
        case 2
        have "1 \<le> n + 1" using prems(6) by simp
        with 2 show ?thesis by simp
      qed
    qed
    have p': "\<forall>r \<in> set ((dn @ [?data]) @ rest). part_key r = k"
      using prems(1) by (auto simp: part_key_def)
    have d': "distinct (map idx ((dn @ [?data]) @ rest))"
      using prems(2) by simp
    have n': "0 \<le> n + 1" using prems(6) by simp
    from IH [OF p' d' z(2) rng ok' n'] False show ?thesis
      unfolding step by simp
  qed
qed

lemma group_partition_threshold:
  assumes p: "\<forall>r \<in> set S. part_key r = k" and d: "distinct (map idx S)"
    and z: "\<forall>r \<in> set S. fieldID r = 0"
  shows "threshold_ok sep radius (group_partition sep radius k S)"
proof (cases S)
  case Nil
  then show ?thesis by (simp add: group_partition_Nil threshold_ok_def)
next
  case (Cons r0 rest)
  let ?r0 = "r0\<lparr>fieldID := 1, RA_ref := Some (RA r0), Dec_ref := Some (Dec r0)\<rparr>"
  have 1: "\<forall>r \<in> set ([?r0] @ rest). part_key r = k"
    using p Cons by (auto simp: part_key_def)
  have 2: "distinct (map idx ([?r0] @ rest))" using d Cons by simp
  have 3: "\<forall>r \<in> set rest. fieldID r = 0" using z Cons by simp
  have 4: "\<forall>r \<in> set [?r0]. 1 \<le> fieldID r \<and> fieldID r \<le> 1" by simp
  have 5: "threshold_ok sep radius [?r0]" by (simp add: threshold_ok_def)
  have "threshold_ok sep radius (snd (assign_rows sep radius k rest (1, [?r0] @ rest)))"
    by (rule assign_rows_threshold [OF 1 2 3 4 5]) simp
  moreover have "group_partition sep radius k (r0 # rest) =
      snd (assign_rows sep radius k rest (1, [?r0] @ rest))"
    using p d z unfolding Cons by (rule group_partition_single)
  ultimately show ?thesis unfolding Cons by simp
qed

lemma erase_epoch_simps [simp]:
  "idx (erase_epoch r) = idx r" "fieldID (erase_epoch r) = fieldID r"
  "RA (erase_epoch r) = RA r" "Dec (erase_epoch r) = Dec r"
  "part_key (erase_epoch r) = part_key r"
  by (simp_all add: erase_epoch_def part_key_def)

lemma set_epoch_erase: "map erase_epoch (set_epoch i e t) = map erase_epoch t"
  by (simp add: set_epoch_def erase_epoch_def)

lemma epoch_rows_erase:
  "map erase_epoch (snd (snd (epoch_rows d rs (ref, e, t)))) = map erase_epoch t"
  by (induction rs arbitrary: ref e t) (simp_all add: set_epoch_erase)

lemma epoch_field_erase: "map erase_epoch (epoch_field d k f t) = map erase_epoch t"
  by (cases "filter (in_field k f) t")
    (simp_all add: epoch_field_unfold epoch_field_Nil epoch_rows_erase del: epoch_rows.simps)

lemma epoch_partition_erase: "map erase_epoch (epoch_partition d k t) = map erase_epoch t"
proof -
  have "map erase_epoch (fold (epoch_field d k) fs t) = map erase_epoch t" for fs
    by (induction fs arbitrary: t) (simp_all add: epoch_field_erase)
  then show ?thesis by (simp add: epoch_partition_def)
qed

lemma group_epochs_erase: "map erase_epoch (group_epochs d t) = map erase_epoch t"
proof -
  have "map erase_epoch (fold (epoch_partition d) ks t) = map erase_epoch t" for ks
    by (induction ks arbitrary: t) (simp_all add: epoch_partition_erase)
  then show ?thesis by (simp add: group_epochs_def)
qed

lemma find_map_erase:
  "find (\<lambda>q. fieldID q = f) (map erase_epoch xs) = map_option erase_epoch (find (\<lambda>q. fieldID q = f) xs)"
  by (induction xs) auto

lemma threshold_ok_erase:
  "threshold_ok sep radius (map erase_epoch rows) = threshold_ok sep radius rows"
proof
  assume ok: "threshold_ok sep radius (map erase_epoch rows)"
  show "threshold_ok sep radius rows"
    unfolding threshold_ok_def
  proof (intro ballI allI impI, elim conjE)
    fix r r0
    assume r: "r \<in> set rows" and f: "find (\<lambda>q. fieldID q = fieldID r) rows = Some r0"
      and ne: "idx r \<noteq> idx r0"
    have "erase_epoch r \<in> set (map erase_epoch rows)" using r by simp
    moreover have "find (\<lambda>q. fieldID q = fieldID (erase_epoch r)) (map erase_epoch rows) =
        Some (erase_epoch r0)"
      using f by (simp add: find_map_erase)
    moreover have "idx (erase_epoch r) \<noteq> idx (erase_epoch r0)" using ne by simp
    ultimately have "sep (RA (erase_epoch r), Dec (erase_epoch r)) (RA (erase_epoch r0), Dec (erase_epoch r0)) < 100 \<and>
        sep (RA (erase_epoch r), Dec (erase_epoch r)) (RA (erase_epoch r0), Dec (erase_epoch r0)) < radius"
      using ok unfolding threshold_ok_def by blast
    then show "sep (RA r, Dec r) (RA r0, Dec r0) < 100 \<and> sep (RA r, Dec r) (RA r0, Dec r0) < radius"
      by simp
  qed
next
  assume ok: "threshold_ok sep radius rows"
  show "threshold_ok sep radius (map erase_epoch rows)"
    unfolding threshold_ok_def
  proof (intro ballI allI impI, elim conjE)
    fix r' q
    assume r: "r' \<in> set (map erase_epoch rows)"
      and f: "find (\<lambda>q. fieldID q = fieldID r') (map erase_epoch rows) = Some q"
      and ne: "idx r' \<noteq> idx q"
    from r obtain r where r1: "r \<in> set rows" and r': "r' = erase_epoch r" by auto
    from f obtain r0 where f1: "find (\<lambda>q. fieldID q = fieldID r) rows = Some r0"
      and q: "q = erase_epoch r0"
      unfolding r' by (auto simp: find_map_erase)
    from ne have "idx r \<noteq> idx r0" unfolding r' q by simp
    with ok r1 f1 have "sep (RA r, Dec r) (RA r0, Dec r0) < 100 \<and>
        sep (RA r, Dec r) (RA r0, Dec r0) < radius"
      unfolding threshold_ok_def by blast
    then show "sep (RA r', Dec r') (RA q, Dec q) < 100 \<and> sep (RA r', Dec r') (RA q, Dec q) < radius"
      unfolding r' q by simp
  qed
qed

lemma filter_part_erase:
  "map erase_epoch (filter (\<lambda>r. part_key r = k) t) =
     filter (\<lambda>r. part_key r = k) (map erase_epoch t)"
  by (induction t) auto

text \<open>
  When the reference of every field is 100 degrees or more away, the loop over the fields
  selects none (\<^verbatim>\<open>field_ref\<close> stays -1) and the record opens a new field, whatever the
  radius.
\<close>

lemma closest_field_far:
  assumes far: "\<And>key r0 rs. key \<in> set keys \<Longrightarrow>
      filter (\<lambda>r. fieldID r = key \<and> m r) t = r0 # rs \<Longrightarrow> 100 \<le> sep c (RA r0, Dec r0)"
    and sm: "sm \<le> 100"
  shows "fst (snd (closest_field sep radius t m c keys (sm, fr, ra, dec))) = fr"
  using far
proof (induction keys arbitrary: ra dec)
  case Nil
  then show ?case by simp
next
  case (Cons key keys)
  note IH = Cons.IH and prems = Cons.prems
  have rest: "fst (snd (closest_field sep radius t m c keys (sm, fr, a, b))) = fr" for a b
    by (rule IH) (rule prems, simp_all)
  show ?case
  proof (cases "filter (\<lambda>r. fieldID r = key \<and> m r) t")
    case Nil
    with rest show ?thesis by simp
  next
    case (Cons r0 rs)
    from prems [OF _ Cons] have "100 \<le> sep c (RA r0, Dec r0)" by simp
    with sm have "\<not> sep c (RA r0, Dec r0) < sm" by simp
    with Cons rest show ?thesis by simp
  qed
qed

text \<open>
  Claim C9. In the table that \<^verbatim>\<open>table_obs\<close> returns, let \<open>r0\<close> be the first row of the
  field of a row \<open>r\<close>: the row that opened the field, whose coordinate is the reference the
  clusterer compares with. If \<open>r\<close> is another row, then its separation from \<open>r0\<close> is below
  100 degrees and below the radius, whatever the radius is: no record is assigned to a
  field whose reference is 100 degrees or more away, and a record that far from the
  reference of every field is the first row of a field of its own.
\<close>

theorem table_obs_threshold:
  assumes run: "table_obs sep filenames radius deltaT = Inr T"
    and r: "r \<in> set T"
    and first: "find (\<lambda>q. part_key q = part_key r \<and> fieldID q = fieldID r) T = Some r0"
    and other: "idx r \<noteq> idx r0"
  shows "sep (RA r, Dec r) (RA r0, Dec r0) < 100 \<and> sep (RA r, Dec r) (RA r0, Dec r0) < radius"
proof -
  from run obtain t where T: "T = group_epochs deltaT (group_fields sep radius t)"
    and dt: "distinct (map idx t)" and zt: "\<forall>r \<in> set t. fieldID r = 0"
    by (rule table_obs_shape)
  let ?P = "\<lambda>q. part_key q = part_key r"
  let ?T1 = "group_fields sep radius t"
  have "threshold_ok sep radius (group_partition sep radius (part_key r) (filter ?P t))"
  proof (rule group_partition_threshold)
    show "\<forall>q \<in> set (filter ?P t). part_key q = part_key r" by simp
    show "distinct (map idx (filter ?P t))" using dt by (simp add: distinct_map_filter)
    show "\<forall>q \<in> set (filter ?P t). fieldID q = 0" using zt by simp
  qed
  then have "threshold_ok sep radius (filter ?P ?T1)"
    by (simp only: group_fields_partition [OF dt])
  then have "threshold_ok sep radius (map erase_epoch (filter ?P ?T1))"
    by (simp only: threshold_ok_erase)
  moreover have "map erase_epoch (filter ?P T) = map erase_epoch (filter ?P ?T1)"
    unfolding T by (simp only: filter_part_erase group_epochs_erase)
  ultimately have ok: "threshold_ok sep radius (filter ?P T)"
    by (simp only: threshold_ok_erase [symmetric, of sep radius "filter ?P T"])
  have "r \<in> set (filter ?P T)" using r by simp
  moreover have "find (\<lambda>q. fieldID q = fieldID r) (filter ?P T) = Some r0"
    using first by (simp only: find_filter_conj)
  ultimately show ?thesis
    using ok other unfolding threshold_ok_def by blast
qed

text \<open>
  Radius 200 degrees: image b, 150 degrees from a, opens field 2; image c, 50 degrees from
  a, joins field 1.
\<close>

theorem table_obs_threshold_witness:
  "table_obs ra_sep
     [(''a.fits'', ex_header (Some 100) 0 ''CAM''),
      (''b.fits'', ex_header (Some 101) 150 ''CAM''),
      (''c.fits'', ex_header (Some 102) 50 ''CAM'')] 200 1 =
   Inr [ex_row 0 ''a.fits'' ''CAM'' 0 2400 1 1 0,
        ex_row 1 ''b.fits'' ''CAM'' 150 2424 2 1 150,
        ex_row 2 ''c.fits'' ''CAM'' 50 2448 1 2 150] \<and>
   ra_sep (RA (ex_row 2 ''c.fits'' ''CAM'' 50 2448 1 2 150),
           Dec (ex_row 2 ''c.fits'' ''CAM'' 50 2448 1 2 150))
          (RA (ex_row 0 ''a.fits'' ''CAM'' 0 2400 1 1 0),
           Dec (ex_row 0 ''a.fits'' ''CAM'' 0 2400 1 1 0)) < 100 \<and>
   ra_sep (RA (ex_row 2 ''c.fits'' ''CAM'' 50 2448 1 2 150),
           Dec (ex_row 2 ''c.fits'' ''CAM'' 50 2448 1 2 150))
          (RA (ex_row 0 ''a.fits'' ''CAM'' 0 2400 1 1 0),
           Dec (ex_row 0 ''a.fits'' ''CAM'' 0 2400 1 1 0)) < 200"
proof -
  let ?a = "ex_row 0 ''a.fits'' ''CAM'' 0 2400 1 1 0"
  let ?c = "ex_row 2 ''c.fits'' ''CAM'' 50 2448 1 2 150"
  let ?T = "[?a, ex_row 1 ''b.fits'' ''CAM'' 150 2424 2 1 150, ?c]"
  have run: "table_obs ra_sep
     [(''a.fits'', ex_header (Some 100) 0 ''CAM''),
      (''b.fits'', ex_header (Some 101) 150 ''CAM''),
      (''c.fits'', ex_header (Some 102) 50 ''CAM'')] 200 1 = Inr ?T"
    by code_simp
  have r: "?c \<in> set ?T" by simp
  have first: "find (\<lambda>q. part_key q = part_key ?c \<and> fieldID q = fieldID ?c) ?T = Some ?a"
    by code_simp
  have other: "idx ?c \<noteq> idx ?a" by code_simp
  from table_obs_threshold [OF run r first other] run show ?thesis by blast
qed

section \<open>Branches of the model that are never taken\<close>

text \<open>
  The keys of a loop are read from the rows the loop then selects, so the selection is
  never empty.
\<close>

lemma field_key_has_row:
  "key \<in> set (field_keys (filter mask2 t)) \<Longrightarrow> filter (\<lambda>r. fieldID r = key \<and> mask2 r) t \<noteq> []"
  by (auto simp: field_keys_set filter_empty_conv)

lemma partition_key_has_row:
  "k \<in> set (partition_keys t) \<Longrightarrow> filter (\<lambda>r. part_key r = k) t \<noteq> []"
  by (auto simp: partition_keys_set filter_empty_conv)

lemma epoch_key_has_row:
  "f \<in> set (field_keys (filter (\<lambda>r. part_key r = k) t)) \<Longrightarrow>
     filter (\<lambda>r. fieldID r = f \<and> part_key r = k) t \<noteq> []"
  by (auto simp: field_keys_set filter_empty_conv)

end
